theory Spec2Isabelle
  imports Main "HOL-Library.Word" "HOL-Library.AList"
begin

unbundle bit_operations_syntax

section \<open>Status codes and the status translator (error.go)\<close>

type_synonym uint32 = "32 word"
type_synonym uint64 = "64 word"
type_synonym bytes = "8 word list"

definition NFS3_OK :: uint32 where "NFS3_OK = 0"
definition NFS3ERR_PERM :: uint32 where "NFS3ERR_PERM = 1"
definition NFS3ERR_NOENT :: uint32 where "NFS3ERR_NOENT = 2"
definition NFS3ERR_ACCES :: uint32 where "NFS3ERR_ACCES = 13"
definition NFS3ERR_EXIST :: uint32 where "NFS3ERR_EXIST = 17"
definition NFS3ERR_NOTDIR :: uint32 where "NFS3ERR_NOTDIR = 20"
definition NFS3ERR_NOTEMPTY :: uint32 where "NFS3ERR_NOTEMPTY = 66"

text \<open>
  Go's \<open>error\<close> values that the client can hold. \<open>ErrPermission\<close>, \<open>ErrExist\<close> and
  \<open>ErrNotExist\<close> are the three sentinels of package \<open>os\<close>; \<open>Error s\<close> is the package's own
  \<open>&Error{ErrorString: s}\<close>. \<open>Transport\<close> stands for whatever the RPC channel returns when
  a call cannot be completed and \<open>Decode\<close> for whatever the XDR reader returns when a
  response cannot be parsed; both collaborators are outside the repository. A \<open>nil\<close> error
  is \<open>None\<close> of \<open>error option\<close>.
\<close>

datatype error =
    ErrPermission
  | ErrExist
  | ErrNotExist
  | Error string
  | Transport string
  | Decode

text \<open>\<open>fmt.Sprintf("%d", n)\<close> for an unsigned \<open>n\<close>: the decimal digits, no padding.\<close>

definition digit_char :: "nat \<Rightarrow> char" where
  "digit_char d = ''0123456789'' ! d"

fun digits10 :: "nat \<Rightarrow> string" where
  "digits10 n = (if n < 10 then [digit_char n] else digits10 (n div 10) @ [digit_char (n mod 10)])"

declare digits10.simps [simp del]

text \<open>
  \<open>NFS3Error\<close>, lines 39-52. The \<open>switch\<close> has three cases and a \<open>default\<close>; every
  path through it returns, so the \<open>return nil\<close> that follows the \<open>switch\<close> is never
  reached. There is no case for \<open>NFS3_OK\<close>.
\<close>

definition NFS3Error :: "uint32 \<Rightarrow> error option" where
  "NFS3Error errnum =
     (if errnum = NFS3ERR_PERM then Some ErrPermission
      else if errnum = NFS3ERR_EXIST then Some ErrExist
      else if errnum = NFS3ERR_NOENT then Some ErrNotExist
      else Some (Error (''error: '' @ digits10 (unat errnum))))"

section \<open>Protocol data\<close>

text \<open>
  The declarations of \<open>Fattr\<close>, \<open>PostOpAttr\<close>, \<open>PostOpFH3\<close>, \<open>EntryPlus\<close> and \<open>NF3Dir\<close>
  are not in the two source files; the fields below are the ones the client reads
  (\<open>attr.Type\<close>, \<open>entry.FileName\<close>, \<open>entry.Cookie\<close>, \<open>entry.Attr.Attr.Type\<close>,
  \<open>entry.Handle.IsSet\<close>, \<open>entry.Handle.FH\<close>), with the permission bits and size the
  specification names. The directory type code is 2, as the literal in \<open>cachedLookup\<close>.
\<close>

record Fattr =
  Type :: uint32
  FileMode :: uint32
  Filesize :: uint64

record PostOpAttr =
  AttrIsSet :: bool
  Attr :: Fattr

record PostOpFH3 =
  IsSet :: bool
  FH :: bytes

record EntryPlus =
  FileId :: uint64
  FileName :: string
  Cookie :: uint64
  EntryAttr :: PostOpAttr
  Handle :: PostOpFH3

definition NF3Dir :: uint32 where "NF3Dir = 2"

text \<open>
  The requests the client sends. Every request carries the same header up to the procedure
  number (RPC version 2, program, version, the target's credentials, a null verifier), so
  a request is its procedure and the procedure's own arguments.
\<close>

datatype request =
    Lookup3Args bytes string
  | ReadDirPlus3Args bytes uint64 uint64 uint32 uint32
  | MkdirArgs bytes string uint32
  | Create3Args bytes string uint32 uint32
  | RemoveArgs bytes string
  | RmDir3Args bytes string

text \<open>
  A response is a stream the codec reads typed values from, one after the other. The
  codec is outside the repository; here a stream is the list of the values it would
  decode to, and a read fails with \<open>Decode\<close> when the next value is not of the type asked
  for or the stream has ended. \<open>XDirListPlus3 None\<close> is a list item whose presence flag is
  false. The weak cache consistency data of the mkdir and create results is decoded by the
  source and never read; it is left out.
\<close>

datatype item =
    XUint32 uint32
  | XBool bool
  | XLookupOk bytes PostOpAttr PostOpAttr
  | XDirListOK PostOpAttr uint64
  | XDirListPlus3 "EntryPlus option"
  | XMkdirOk PostOpFH3 PostOpAttr
  | XCreate3Res PostOpFH3 PostOpAttr

datatype reply = Failed string | Stream "item list"

definition ReadUint32 :: "item list \<Rightarrow> (error + uint32) \<times> item list" where
  "ReadUint32 res = (case res of XUint32 n # rest \<Rightarrow> (Inr n, rest) | _ \<Rightarrow> (Inl Decode, res))"

definition ReadBool :: "item list \<Rightarrow> (error + bool) \<times> item list" where
  "ReadBool res = (case res of XBool b # rest \<Rightarrow> (Inr b, rest) | _ \<Rightarrow> (Inl Decode, res))"

definition ReadLookupOk :: "item list \<Rightarrow> (error + bytes \<times> PostOpAttr \<times> PostOpAttr) \<times> item list" where
  "ReadLookupOk res =
     (case res of XLookupOk h a d # rest \<Rightarrow> (Inr (h, a, d), rest) | _ \<Rightarrow> (Inl Decode, res))"

definition ReadDirListOK :: "item list \<Rightarrow> (error + PostOpAttr \<times> uint64) \<times> item list" where
  "ReadDirListOK res =
     (case res of XDirListOK a verf # rest \<Rightarrow> (Inr (a, verf), rest) | _ \<Rightarrow> (Inl Decode, res))"

definition ReadMkdirOk :: "item list \<Rightarrow> (error + PostOpFH3 \<times> PostOpAttr) \<times> item list" where
  "ReadMkdirOk res =
     (case res of XMkdirOk h a # rest \<Rightarrow> (Inr (h, a), rest) | _ \<Rightarrow> (Inl Decode, res))"

definition ReadCreate3Res :: "item list \<Rightarrow> (error + PostOpFH3 \<times> PostOpAttr) \<times> item list" where
  "ReadCreate3Res res =
     (case res of XCreate3Res h a # rest \<Rightarrow> (Inr (h, a), rest) | _ \<Rightarrow> (Inl Decode, res))"

section \<open>The target and its environment\<close>

text \<open>
  \<open>Client\<close> is what the target sees through the embedded \<open>*rpc.Client\<close> and through
  \<open>time.Now\<close>: the server (with the network) answers a request with a reply after some
  time, and its answer may depend on every request sent so far; \<open>sent\<close> is the trace of
  the requests, oldest first; \<open>clock\<close> is the current time in nanoseconds.
\<close>

record Client =
  server :: "request list \<Rightarrow> nat \<times> reply"
  sent :: "request list"
  clock :: int

record cacheEntry =
  efh :: bytes
  eattr :: Fattr
  expire :: int

text \<open>
  \<open>Target\<close> embeds the client, as the Go struct does. The credentials, the export path and
  the file system information take no part in the operations below; the mutex is the
  sequential order of the model. The two levels of the cache are association lists,
  read with \<open>map_of\<close> and written with \<open>AList.update\<close> and \<open>AList.delete\<close>: the janitor
  ranges over them, and the order of a list stands for the order in which Go happens to
  yield the keys of a map.
\<close>

record Target = Client +
  fh :: bytes
  entryTimeout :: int
  entries :: "(bytes \<times> (string \<times> cacheEntry) list) list"

definition Call :: "Target \<Rightarrow> request \<Rightarrow> reply \<times> Target" where
  "Call v c =
     (case server v (sent v @ [c]) of
        (d, r) \<Rightarrow> (r, v\<lparr>sent := sent v @ [c], clock := clock v + int d\<rparr>))"

text \<open>\<open>Target.call\<close>, lines 72-88.\<close>

definition call :: "Target \<Rightarrow> request \<Rightarrow> (error + item list) \<times> Target" where
  "call v c =
     (case Call v c of
        (Failed m, v') \<Rightarrow> (Inl (Transport m), v')
      | (Stream res, v') \<Rightarrow>
          (case ReadUint32 res of
             (Inl err, _) \<Rightarrow> (Inl err, v')
           | (Inr status, res') \<Rightarrow>
               (case NFS3Error status of
                  Some err \<Rightarrow> (Inl err, v')
                | None \<Rightarrow> (Inr res', v'))))"

section \<open>Paths\<close>

text \<open>
  \<open>strings.Split(s, "/")\<close>: the substrings between the slashes; a string with no slash is
  one element, the empty string is one empty element.
\<close>

fun split_slash :: "string \<Rightarrow> string list" where
  "split_slash [] = [[]]"
| "split_slash (c # cs) =
     (if c = CHR ''/'' then [] # split_slash cs
      else (case split_slash cs of [] \<Rightarrow> [[c]] | x # xs \<Rightarrow> (c # x) # xs))"

text \<open>
  \<open>path.Clean\<close> of the Go standard library, by its documented rules: runs of slashes are
  one slash; \<open>.\<close> elements are dropped; an inner \<open>..\<close> is dropped together with the element
  before it; a \<open>..\<close> that begins a rooted path is dropped; the empty result is \<open>.\<close>.
  \<open>clean_elems\<close> keeps the elements kept so far, the last one first.
\<close>

fun clean_elems :: "bool \<Rightarrow> string list \<Rightarrow> string list \<Rightarrow> string list" where
  "clean_elems rooted out [] = rev out"
| "clean_elems rooted out (e # es) =
     (if e = [] \<or> e = ''.'' then clean_elems rooted out es
      else if e = ''..'' then
        (case out of
           [] \<Rightarrow> if rooted then clean_elems rooted [] es else clean_elems rooted [''..''] es
         | t # ts \<Rightarrow>
             if t = ''..'' then clean_elems rooted (''..'' # out) es
             else clean_elems rooted ts es)
      else clean_elems rooted (e # out) es)"

fun join_slash :: "string list \<Rightarrow> string" where
  "join_slash [] = []"
| "join_slash [e] = e"
| "join_slash (e # es) = e @ ''/'' @ join_slash es"

definition path_Clean :: "string \<Rightarrow> string" where
  "path_Clean p =
     (case p of
        [] \<Rightarrow> ''.''
      | c # _ \<Rightarrow>
          (let rooted = (c = CHR ''/'');
               out = join_slash (clean_elems rooted [] (split_slash p))
           in if rooted then ''/'' @ out else if out = [] then ''.'' else out))"

text \<open>
  \<open>filepath.Split\<close> on a slash-separated path: the directory is everything up to and
  including the last slash, the file is what follows it.
\<close>

definition filepath_Split :: "string \<Rightarrow> string \<times> string" where
  "filepath_Split p =
     (rev (dropWhile (\<lambda>c. c \<noteq> CHR ''/'') (rev p)), rev (takeWhile (\<lambda>c. c \<noteq> CHR ''/'') (rev p)))"

section \<open>Lookups and the entry cache\<close>

text \<open>
  \<open>parsefh\<close> is Go's \<open>string(fh)\<close>: the same bytes, used as the key of the outer map.
\<close>

definition parsefh :: "bytes \<Rightarrow> bytes" where
  "parsefh h = h"

text \<open>\<open>Target.lookup\<close>, lines 215-256: one LOOKUP call and its decoded result.\<close>

definition lookup :: "Target \<Rightarrow> bytes \<Rightarrow> string \<Rightarrow> (error + Fattr \<times> bytes) \<times> Target" where
  "lookup v h name =
     (case call v (Lookup3Args h name) of
        (Inl err, v') \<Rightarrow> (Inl err, v')
      | (Inr res, v') \<Rightarrow>
          (case ReadLookupOk res of
             (Inl err, _) \<Rightarrow> (Inl err, v')
           | (Inr (h', a, d), _) \<Rightarrow> (Inr (Attr a, h'), v')))"

text \<open>
  \<open>Target.cachedLookup\<close>, lines 179-202. \<open>es\<close> is the inner map read at line 182 (\<open>None\<close>
  for Go's nil map); a hit needs an entry and \<open>time.Since(e.expire) < 0\<close>, that is, the
  clock minus the expiration is negative. After a remote lookup that succeeded with
  attributes of type 2 the entry is stored in \<open>es\<close> (a new inner map when there was none),
  expiring \<open>entryTimeout\<close> after the clock as it is then.
\<close>

definition cachedLookup :: "Target \<Rightarrow> bytes \<Rightarrow> string \<Rightarrow> (error + Fattr \<times> bytes) \<times> Target" where
  "cachedLookup v h name =
     (let ino = parsefh h;
          es = map_of (entries v) ino;
          miss =
            (case lookup v h name of
               (Inl err, v') \<Rightarrow> (Inl err, v')
             | (Inr (a, h'), v') \<Rightarrow>
                 if Type a = 2 then
                   (let m = (case es of None \<Rightarrow> [] | Some m \<Rightarrow> m);
                        ce = \<lparr>efh = h', eattr = a, expire = clock v' + entryTimeout v'\<rparr>
                    in (Inr (a, h'), v'\<lparr>entries := AList.update ino (AList.update name ce m) (entries v')\<rparr>))
                 else (Inr (a, h'), v'))
      in case es of
           None \<Rightarrow> miss
         | Some m \<Rightarrow>
             (case map_of m name of
                None \<Rightarrow> miss
              | Some e \<Rightarrow> if clock v - expire e < 0 then (Inr (eattr e, efh e), v) else miss))"

text \<open>\<open>Target.invalidateEntryCache\<close>, lines 204-212.\<close>

definition invalidateEntryCache :: "Target \<Rightarrow> bytes \<Rightarrow> string \<Rightarrow> Target" where
  "invalidateEntryCache v h name =
     (let ino = parsefh h
      in case map_of (entries v) ino of
           None \<Rightarrow> v
         | Some es \<Rightarrow> v\<lparr>entries := AList.update ino (AList.delete name es) (entries v)\<rparr>)"

text \<open>
  \<open>Target.Lookup\<close>, lines 147-173. \<open>Lookup_loop\<close> is the \<open>for\<close> loop over the path
  elements: \<open>fattr\<close> is \<open>None\<close> for the nil pointer the variable starts as.
\<close>

fun Lookup_loop ::
  "Target \<Rightarrow> Fattr option \<Rightarrow> bytes \<Rightarrow> string list \<Rightarrow> (error + Fattr option \<times> bytes) \<times> Target" where
  "Lookup_loop v fattr h [] = (Inr (fattr, h), v)"
| "Lookup_loop v fattr h (dirent # rest) =
     (case cachedLookup v h (if dirent = [] then ''.'' else dirent) of
        (Inl err, v') \<Rightarrow> (Inl err, v')
      | (Inr (a, h'), v') \<Rightarrow> Lookup_loop v' (Some a) h' rest)"

definition Lookup :: "Target \<Rightarrow> string \<Rightarrow> (error + Fattr option \<times> bytes) \<times> Target" where
  "Lookup v p = Lookup_loop v None (fh v) (split_slash (path_Clean p))"

section \<open>The directory pager\<close>

text \<open>
  The inner \<open>for\<close> loop of \<open>readDirPlus\<close>, lines 326-340: list items are read until one
  has its presence flag false; each entry read sets the cookie and is appended.
\<close>

fun read_items ::
  "item list \<Rightarrow> uint64 \<Rightarrow> EntryPlus list \<Rightarrow> (error + uint64 \<times> EntryPlus list) \<times> item list" where
  "read_items [] cookie es = (Inl Decode, [])"
| "read_items (x # res) cookie es =
     (case x of
        XDirListPlus3 None \<Rightarrow> (Inr (cookie, es), res)
      | XDirListPlus3 (Some e) \<Rightarrow> read_items res (Cookie e) (es @ [e])
      | _ \<Rightarrow> (Inl Decode, x # res))"

text \<open>
  The outer loop of \<open>readDirPlus\<close>, lines 292-349, one page per round. The server decides
  whether the listing ever ends, so the loop runs on fuel: \<open>None\<close> is "still reading
  after \<open>n\<close> pages".
\<close>

fun readDirPlus_loop ::
  "nat \<Rightarrow> Target \<Rightarrow> bytes \<Rightarrow> uint64 \<Rightarrow> uint64 \<Rightarrow> bool \<Rightarrow> EntryPlus list
     \<Rightarrow> ((error + EntryPlus list) \<times> Target) option" where
  "readDirPlus_loop n v h cookie cookieVerf eof es =
     (if eof then Some (Inr es, v)
      else
        (case n of
           0 \<Rightarrow> None
         | Suc k \<Rightarrow>
             (case call v (ReadDirPlus3Args h cookie cookieVerf 512 4096) of
                (Inl err, v') \<Rightarrow> Some (Inl err, v')
              | (Inr res, v') \<Rightarrow>
                  (case ReadDirListOK res of
                     (Inl err, _) \<Rightarrow> Some (Inl err, v')
                   | (Inr (dirAttrs, verf), res1) \<Rightarrow>
                       (case read_items res1 cookie es of
                          (Inl err, _) \<Rightarrow> Some (Inl err, v')
                        | (Inr (cookie', es'), res2) \<Rightarrow>
                            (case ReadBool res2 of
                               (Inl err, _) \<Rightarrow> Some (Inl err, v')
                             | (Inr eof', _) \<Rightarrow>
                                 readDirPlus_loop k v' h cookie' verf eof' es'))))))"

declare readDirPlus_loop.simps [simp del]

definition readDirPlus :: "nat \<Rightarrow> Target \<Rightarrow> bytes \<Rightarrow> ((error + EntryPlus list) \<times> Target) option" where
  "readDirPlus n v h = readDirPlus_loop n v h 0 0 False []"

section \<open>Mutation operations\<close>

text \<open>\<open>Target.Mkdir\<close>, lines 355-411. \<open>perm.Perm()\<close> keeps the nine permission bits.\<close>

definition Mkdir :: "Target \<Rightarrow> string \<Rightarrow> uint32 \<Rightarrow> (error + bytes) \<times> Target" where
  "Mkdir v path perm =
     (case filepath_Split path of
        (dir, newDir) \<Rightarrow>
          (case Lookup v dir of
             (Inl err, v1) \<Rightarrow> (Inl err, v1)
           | (Inr (_, h), v1) \<Rightarrow>
               (case call v1 (MkdirArgs h newDir (perm AND 511)) of
                  (Inl err, v2) \<Rightarrow> (Inl err, v2)
                | (Inr res, v2) \<Rightarrow>
                    (case ReadMkdirOk res of
                       (Inl err, _) \<Rightarrow> (Inl err, v2)
                     | (Inr (newfh, a), _) \<Rightarrow> (Inr (FH newfh), invalidateEntryCache v2 h newDir)))))"

text \<open>\<open>Target.Create\<close>, lines 414-475; the creation mode is left at 0 (unchecked).\<close>

definition Create :: "Target \<Rightarrow> string \<Rightarrow> uint32 \<Rightarrow> (error + bytes) \<times> Target" where
  "Create v path perm =
     (case filepath_Split path of
        (dir, newFile) \<Rightarrow>
          (case Lookup v dir of
             (Inl err, v1) \<Rightarrow> (Inl err, v1)
           | (Inr (_, h), v1) \<Rightarrow>
               (case call v1 (Create3Args h newFile 0 (perm AND 511)) of
                  (Inl err, v2) \<Rightarrow> (Inl err, v2)
                | (Inr res, v2) \<Rightarrow>
                    (case ReadCreate3Res res of
                       (Inl err, _) \<Rightarrow> (Inl err, v2)
                     | (Inr (newfh, a), _) \<Rightarrow> (Inr (FH newfh), invalidateEntryCache v2 h newFile)))))"

text \<open>\<open>Target.remove\<close>, lines 489-516, and \<open>Target.Remove\<close>, lines 478-486.\<close>

definition remove :: "Target \<Rightarrow> bytes \<Rightarrow> string \<Rightarrow> error option \<times> Target" where
  "remove v h deleteFile =
     (case call v (RemoveArgs h deleteFile) of
        (Inl err, v') \<Rightarrow> (Some err, v')
      | (Inr _, v') \<Rightarrow> (None, invalidateEntryCache v' h deleteFile))"

definition Remove :: "Target \<Rightarrow> string \<Rightarrow> error option \<times> Target" where
  "Remove v path =
     (case filepath_Split path of
        (parentDir, deleteFile) \<Rightarrow>
          (case Lookup v parentDir of
             (Inl err, v1) \<Rightarrow> (Some err, v1)
           | (Inr (_, h), v1) \<Rightarrow> remove v1 h deleteFile))"

text \<open>\<open>Target.rmDir\<close>, lines 530-558, and \<open>Target.RmDir\<close>, lines 519-527.\<close>

definition rmDir :: "Target \<Rightarrow> bytes \<Rightarrow> string \<Rightarrow> error option \<times> Target" where
  "rmDir v h name =
     (case call v (RmDir3Args h name) of
        (Inl err, v') \<Rightarrow> (Some err, v')
      | (Inr _, v') \<Rightarrow> (None, invalidateEntryCache v' h name))"

definition RmDir :: "Target \<Rightarrow> string \<Rightarrow> error option \<times> Target" where
  "RmDir v path =
     (case filepath_Split path of
        (dir, deletedir) \<Rightarrow>
          (case Lookup v dir of
             (Inl err, v1) \<Rightarrow> (Some err, v1)
           | (Inr (_, h), v1) \<Rightarrow> rmDir v1 h deletedir))"

section \<open>Recursive delete\<close>

text \<open>
  \<open>Target.removeAll\<close>, lines 597-637. \<open>removeAll_entries\<close> is the \<open>for\<close> loop over the
  listed entries, lines 608-634. The depth of the remote tree is the server's to decide,
  so the recursion runs on fuel, one unit per level (and the same bound on the pages of
  each listing); \<open>None\<close> is "out of fuel".
\<close>

fun removeAll :: "nat \<Rightarrow> Target \<Rightarrow> bytes \<Rightarrow> (error option \<times> Target) option"
  and removeAll_entries :: "nat \<Rightarrow> Target \<Rightarrow> bytes \<Rightarrow> EntryPlus list \<Rightarrow> (error option \<times> Target) option" where
  "removeAll 0 v deleteDirfh = None"
| "removeAll (Suc n) v deleteDirfh =
     (case readDirPlus (Suc n) v deleteDirfh of
        None \<Rightarrow> None
      | Some (Inl err, v') \<Rightarrow> Some (Some err, v')
      | Some (Inr es, v') \<Rightarrow> removeAll_entries n v' deleteDirfh es)"
| "removeAll_entries n v deleteDirfh [] = Some (None, v)"
| "removeAll_entries n v deleteDirfh (entry # rest) =
     (if FileName entry = ''.'' \<or> FileName entry = ''..'' then removeAll_entries n v deleteDirfh rest
      else if Type (Attr (EntryAttr entry)) = NF3Dir then
        (if IsSet (Handle entry) then
           (case removeAll n v (FH (Handle entry)) of
              None \<Rightarrow> None
            | Some (Some err, v') \<Rightarrow> Some (Some err, v')
            | Some (None, v') \<Rightarrow>
                (case rmDir v' deleteDirfh (FileName entry) of
                   (Some err, v'') \<Rightarrow> Some (Some err, v'')
                 | (None, v'') \<Rightarrow> removeAll_entries n v'' deleteDirfh rest))
         else
           (case rmDir v deleteDirfh (FileName entry) of
              (Some err, v') \<Rightarrow> Some (Some err, v')
            | (None, v') \<Rightarrow> removeAll_entries n v' deleteDirfh rest))
      else
        (case remove v deleteDirfh (FileName entry) of
           (Some err, v') \<Rightarrow> Some (Some err, v')
         | (None, v') \<Rightarrow> removeAll_entries n v' deleteDirfh rest))"

text \<open>\<open>os.IsNotExist\<close> on the errors of this model: the not-exist sentinel.\<close>

definition os_IsNotExist :: "error \<Rightarrow> bool" where
  "os_IsNotExist err = (err = ErrNotExist)"

text \<open>
  Modelled from the spec: \<open>IsNotDirError\<close> is called by \<open>RemoveAll\<close> and is in neither
  source file. The specification has recursive delete inspect the failure for "not a
  directory", protocol status 20; the status translator turns that status into the generic
  error carrying 20.
\<close>

definition IsNotDirError :: "error \<Rightarrow> bool" where
  "IsNotDirError err = (err = Error (''error: '' @ digits10 (unat NFS3ERR_NOTDIR)))"

text \<open>\<open>Target.RemoveAll\<close>, lines 560-594.\<close>

definition RemoveAll :: "nat \<Rightarrow> Target \<Rightarrow> string \<Rightarrow> (error option \<times> Target) option" where
  "RemoveAll n v path =
     (case filepath_Split path of
        (parentDir, deleteDir) \<Rightarrow>
          (case Lookup v parentDir of
             (Inl err, v1) \<Rightarrow> Some (Some err, v1)
           | (Inr (_, parentDirfh), v1) \<Rightarrow>
               (case rmDir v1 parentDirfh deleteDir of
                  (None, v2) \<Rightarrow> Some (None, v2)
                | (Some err, v2) \<Rightarrow>
                    if os_IsNotExist err then Some (None, v2)
                    else if IsNotDirError err then Some (Some err, v2)
                    else
                      (case lookup v2 parentDirfh deleteDir of
                         (Inl err', v3) \<Rightarrow> Some (Some err', v3)
                       | (Inr (_, deleteDirfh), v3) \<Rightarrow>
                           (case removeAll n v3 deleteDirfh of
                              None \<Rightarrow> None
                            | Some (Some err', v4) \<Rightarrow> Some (Some err', v4)
                            | Some (None, v4) \<Rightarrow> Some (rmDir v4 parentDirfh deleteDir))))))"

section \<open>The cache janitor\<close>

text \<open>
  One pass of \<open>Target.cleanupCache\<close>, the body of its endless loop, lines 123-141. Each
  \<open>range\<close> yields the keys its map had when the loop began, but not a key deleted before
  its turn. \<open>now.After(e.expire)\<close> is \<open>expire e < now\<close>; \<open>cnt\<close> counts the entries the
  inner loop body has run for. The result of the inner loop says whether \<open>break OUTER\<close>
  was taken.
\<close>

fun cleanup_inner ::
  "int \<Rightarrow> bytes \<Rightarrow> string list \<Rightarrow> (bytes \<times> (string \<times> cacheEntry) list) list \<times> nat
     \<Rightarrow> ((bytes \<times> (string \<times> cacheEntry) list) list \<times> nat) \<times> bool" where
  "cleanup_inner now h [] (ents, cnt) = ((ents, cnt), False)"
| "cleanup_inner now h (n # names) (ents, cnt) =
     (case map_of ents h of
        None \<Rightarrow> cleanup_inner now h names (ents, cnt)
      | Some es \<Rightarrow>
          (case map_of es n of
             None \<Rightarrow> cleanup_inner now h names (ents, cnt)
           | Some e \<Rightarrow>
               (let ents' =
                      (if expire e < now then
                         (let es' = AList.delete n es
                          in if length es' = 0 then AList.delete h ents
                             else AList.update h es' ents)
                       else ents);
                    cnt' = cnt + 1
                in if cnt' > 1000 then ((ents', cnt'), True)
                   else cleanup_inner now h names (ents', cnt'))))"

fun cleanup_outer ::
  "int \<Rightarrow> (bytes \<times> (string \<times> cacheEntry) list) list
     \<Rightarrow> (bytes \<times> (string \<times> cacheEntry) list) list \<times> nat
     \<Rightarrow> (bytes \<times> (string \<times> cacheEntry) list) list \<times> nat" where
  "cleanup_outer now [] st = st"
| "cleanup_outer now ((h, es) # buckets) st =
     (case cleanup_inner now h (map fst es) st of
        (st', True) \<Rightarrow> st'
      | (st', False) \<Rightarrow> cleanup_outer now buckets st')"

text \<open>The pass returns the target with the swept cache, and the final value of \<open>cnt\<close>.\<close>

definition cleanupCache_pass :: "Target \<Rightarrow> Target \<times> nat" where
  "cleanupCache_pass v =
     (case cleanup_outer (clock v) (entries v) (entries v, 0) of
        (ents, cnt) \<Rightarrow> (v\<lparr>entries := ents\<rparr>, cnt))"

section \<open>Example servers and targets\<close>

text \<open>
  Concrete inputs for the closed theorems below. \<open>ok_server\<close> answers every request with
  status \<open>NFS3_OK\<close> and a well-formed body for its procedure, one microsecond later: a
  lookup finds a directory (a regular file for the name \<open>d.txt\<close>), a directory is listed
  as three entries split across two pages, and every mutation succeeds.
\<close>

definition dirAttr :: Fattr where
  "dirAttr = \<lparr>Type = 2, FileMode = 493, Filesize = 4096\<rparr>"

definition fileAttr :: Fattr where
  "fileAttr = \<lparr>Type = 1, FileMode = 420, Filesize = 12\<rparr>"

definition entry_b :: EntryPlus where
  "entry_b = \<lparr>FileId = 11, FileName = ''b'', Cookie = 1,
     EntryAttr = \<lparr>AttrIsSet = True, Attr = dirAttr\<rparr>, Handle = \<lparr>IsSet = True, FH = [0, 1]\<rparr>\<rparr>"

definition entry_c :: EntryPlus where
  "entry_c = \<lparr>FileId = 12, FileName = ''c'', Cookie = 2,
     EntryAttr = \<lparr>AttrIsSet = True, Attr = dirAttr\<rparr>, Handle = \<lparr>IsSet = False, FH = []\<rparr>\<rparr>"

definition entry_d :: EntryPlus where
  "entry_d = \<lparr>FileId = 13, FileName = ''d.txt'', Cookie = 3,
     EntryAttr = \<lparr>AttrIsSet = True, Attr = fileAttr\<rparr>, Handle = \<lparr>IsSet = True, FH = [0, 3]\<rparr>\<rparr>"

definition ok_body :: "request \<Rightarrow> item list" where
  "ok_body c =
     (case c of
        Lookup3Args h name \<Rightarrow>
          [XLookupOk (h @ [1])
             \<lparr>AttrIsSet = True, Attr = (if name = ''d.txt'' then fileAttr else dirAttr)\<rparr>
             \<lparr>AttrIsSet = True, Attr = dirAttr\<rparr>]
      | ReadDirPlus3Args h cookie verf dircount maxcount \<Rightarrow>
          (if cookie = 0 then
             [XDirListOK \<lparr>AttrIsSet = True, Attr = dirAttr\<rparr> 77,
              XDirListPlus3 (Some entry_b), XDirListPlus3 (Some entry_c), XDirListPlus3 None,
              XBool False]
           else
             [XDirListOK \<lparr>AttrIsSet = True, Attr = dirAttr\<rparr> 77,
              XDirListPlus3 (Some entry_d), XDirListPlus3 None,
              XBool True])
      | MkdirArgs h name mode \<Rightarrow>
          [XMkdirOk \<lparr>IsSet = True, FH = h @ [2]\<rparr> \<lparr>AttrIsSet = True, Attr = dirAttr\<rparr>]
      | Create3Args h name how mode \<Rightarrow>
          [XCreate3Res \<lparr>IsSet = True, FH = h @ [3]\<rparr> \<lparr>AttrIsSet = True, Attr = fileAttr\<rparr>]
      | RemoveArgs h name \<Rightarrow> []
      | RmDir3Args h name \<Rightarrow> [])"

definition ok_server :: "request list \<Rightarrow> nat \<times> reply" where
  "ok_server rs =
     (case rev rs of
        [] \<Rightarrow> (0, Failed ''no request'')
      | c # _ \<Rightarrow> (1000, Stream (XUint32 NFS3_OK # ok_body c)))"

text \<open>
  A target with its fields as \<open>NewTarget\<close> sets them: the root handle, a time-to-live of
  one second, an empty cache; nothing has been sent and the clock is at 0.
\<close>

definition fresh :: "(request list \<Rightarrow> nat \<times> reply) \<Rightarrow> Target" where
  "fresh srv = \<lparr>server = srv, sent = [], clock = 0, fh = [0], entryTimeout = 1000000000, entries = []\<rparr>"

text \<open>
  A target whose cache already holds three directories under the root handle, each
  expiring five seconds after time 0; the clock is the argument.
\<close>

definition seeded :: "(request list \<Rightarrow> nat \<times> reply) \<Rightarrow> int \<Rightarrow> Target" where
  "seeded srv t =
     (fresh srv)\<lparr>clock := t,
       entries := [([0], [(''.'', \<lparr>efh = [0], eattr = dirAttr, expire = 5000000000\<rparr>),
                         (''a'', \<lparr>efh = [0, 1], eattr = dirAttr, expire = 5000000000\<rparr>),
                         (''d'', \<lparr>efh = [0, 2], eattr = dirAttr, expire = 5000000000\<rparr>)])]\<rparr>"

text \<open>
  \<open>gone_server\<close> answers a lookup as \<open>ok_server\<close> does and every other request with status
  \<open>NFS3ERR_NOENT\<close>: whatever is to be removed does not exist.
\<close>

definition gone_server :: "request list \<Rightarrow> nat \<times> reply" where
  "gone_server rs =
     (case rev rs of
        [] \<Rightarrow> (0, Failed ''no request'')
      | c # _ \<Rightarrow>
          (1000, Stream (case c of
                           Lookup3Args h name \<Rightarrow> XUint32 NFS3_OK # ok_body c
                         | _ \<Rightarrow> [XUint32 NFS3ERR_NOENT])))"

text \<open>
  \<open>tree_server\<close> exports a directory that holds the one regular file \<open>d.txt\<close>: a listing
  is one page with the entries \<open>.\<close>, \<open>..\<close> and \<open>d.txt\<close>, and RMDIR is answered with
  \<open>NFS3ERR_NOTEMPTY\<close> until a REMOVE has been sent. Every other answer is that of
  \<open>ok_server\<close>.
\<close>

definition entry_dot :: EntryPlus where
  "entry_dot = \<lparr>FileId = 10, FileName = ''.'', Cookie = 1,
     EntryAttr = \<lparr>AttrIsSet = True, Attr = dirAttr\<rparr>, Handle = \<lparr>IsSet = True, FH = [0, 1]\<rparr>\<rparr>"

definition entry_dotdot :: EntryPlus where
  "entry_dotdot = \<lparr>FileId = 1, FileName = ''..'', Cookie = 2,
     EntryAttr = \<lparr>AttrIsSet = True, Attr = dirAttr\<rparr>, Handle = \<lparr>IsSet = True, FH = [0]\<rparr>\<rparr>"

definition is_RemoveArgs :: "request \<Rightarrow> bool" where
  "is_RemoveArgs c = (case c of RemoveArgs h name \<Rightarrow> True | _ \<Rightarrow> False)"

definition tree_server :: "request list \<Rightarrow> nat \<times> reply" where
  "tree_server rs =
     (case rev rs of
        [] \<Rightarrow> (0, Failed ''no request'')
      | c # earlier \<Rightarrow>
          (1000, Stream (case c of
                           RmDir3Args h name \<Rightarrow>
                             [XUint32 (if list_ex is_RemoveArgs earlier then NFS3_OK else NFS3ERR_NOTEMPTY)]
                         | ReadDirPlus3Args h cookie verf dircount maxcount \<Rightarrow>
                             [XUint32 NFS3_OK,
                              XDirListOK \<lparr>AttrIsSet = True, Attr = dirAttr\<rparr> 77,
                              XDirListPlus3 (Some entry_dot), XDirListPlus3 (Some entry_dotdot),
                              XDirListPlus3 (Some entry_d), XDirListPlus3 None,
                              XBool True]
                         | _ \<Rightarrow> XUint32 NFS3_OK # ok_body c)))"

text \<open>
  The entry the cache holds for a handle and a name, read as \<open>cachedLookup\<close> reads it
  (lines 182-184): the inner map of the handle, then the name in it.
\<close>

definition cache_get :: "(bytes \<times> (string \<times> cacheEntry) list) list \<Rightarrow> bytes \<Rightarrow> string \<Rightarrow> cacheEntry option" where
  "cache_get ents h name = (case map_of ents h of None \<Rightarrow> None | Some es \<Rightarrow> map_of es name)"

text \<open>
  \<open>crowded\<close> holds 1001 entries under the root handle, named \<open>0\<close> to \<open>1000\<close>, all expired
  at time 0; its clock is at 1. \<open>stale\<close> holds an expired and a live entry under the root
  handle and one expired entry under another handle; its clock is at 10.
\<close>

definition old_entry :: cacheEntry where
  "old_entry = \<lparr>efh = [0, 1], eattr = dirAttr, expire = 0\<rparr>"

definition live_entry :: cacheEntry where
  "live_entry = \<lparr>efh = [0, 2], eattr = dirAttr, expire = 20\<rparr>"

definition crowded_bucket :: "(string \<times> cacheEntry) list" where
  "crowded_bucket = map (\<lambda>i. (digits10 i, old_entry)) [0..<1001]"

definition crowded :: Target where
  "crowded = (fresh ok_server)\<lparr>clock := 1, entries := [([0], crowded_bucket)]\<rparr>"

definition stale :: Target where
  "stale = (fresh ok_server)\<lparr>clock := 10,
     entries := [([0], [(''a'', old_entry), (''b'', live_entry)]), ([0, 1], [(''c'', old_entry)])]\<rparr>"

text \<open>
  The keys of the cache in the order the two \<open>range\<close> loops of the janitor yield them when
  nothing stops the pass: bucket by bucket, name by name. In a Go map no key occurs twice:
  \<open>distinct_keys\<close> says so of both levels. \<open>after_sweep\<close> is what the janitor leaves of an
  entry it has inspected at time \<open>now\<close>.
\<close>

definition range_order :: "(bytes \<times> (string \<times> cacheEntry) list) list \<Rightarrow> (bytes \<times> string) list" where
  "range_order ents = concat (map (\<lambda>(h, es). map (\<lambda>n. (h, n)) (map fst es)) ents)"

definition distinct_keys :: "(bytes \<times> (string \<times> cacheEntry) list) list \<Rightarrow> bool" where
  "distinct_keys ents = (distinct (map fst ents) \<and> list_all (\<lambda>(h, es). distinct (map fst es)) ents)"

definition after_sweep :: "int \<Rightarrow> cacheEntry option \<Rightarrow> cacheEntry option" where
  "after_sweep now x = (case x of None \<Rightarrow> None | Some e \<Rightarrow> if expire e < now then None else Some e)"

text \<open>
  \<open>overfull\<close> holds 1002 entries under the root handle, named \<open>0\<close> to \<open>1001\<close> in that
  order, all expired at time 0; its clock is at 1.
\<close>

definition overfull_bucket :: "(string \<times> cacheEntry) list" where
  "overfull_bucket = map (\<lambda>i. (digits10 i, old_entry)) [0..<1002]"

definition overfull :: Target where
  "overfull = (fresh ok_server)\<lparr>clock := 1, entries := [([0], overfull_bucket)]\<rparr>"

section \<open>The status translator\<close>

lemma digits10_small: "n < 10 \<Longrightarrow> digits10 n = [digit_char n]"
  by (simp add: digits10.simps)

lemma NFS3Error_0: "NFS3Error 0 = Some (Error ''error: 0'')"
  by (simp add: NFS3Error_def NFS3ERR_PERM_def NFS3ERR_EXIST_def NFS3ERR_NOENT_def
      digits10_small digit_char_def)

lemma NFS3Error_is_error: "\<exists>err. NFS3Error status = Some err"
  by (simp add: NFS3Error_def)

text \<open>The decimal rendering can be read back, so it determines the number.\<close>

lemma digit_char_value: "d < 10 \<Longrightarrow> of_char (digit_char d) - 48 = d"
proof -
  assume "d < 10"
  then have "d = 0 \<or> d = 1 \<or> d = 2 \<or> d = 3 \<or> d = 4 \<or> d = 5 \<or> d = 6 \<or> d = 7 \<or> d = 8 \<or> d = 9"
    by arith
  then show ?thesis
    by (elim disjE) (simp_all add: digit_char_def)
qed

lemma digits10_read_back:
  "foldl (\<lambda>a c. 10 * a + (of_char c - 48)) 0 (digits10 n) = n"
proof (induction n rule: digits10.induct)
  case (1 n)
  show ?case
  proof (cases "n < 10")
    case True
    then show ?thesis by (simp add: digits10.simps [of n] digit_char_value)
  next
    case False
    then have "foldl (\<lambda>a c. 10 * a + (of_char c - 48)) 0 (digits10 (n div 10)) = n div 10"
      using 1 by simp
    with False show ?thesis
      by (simp add: digits10.simps [of n] digit_char_value)
  qed
qed

lemma digits10_inj: "digits10 m = digits10 n \<Longrightarrow> m = n"
  by (metis digits10_read_back)

section \<open>The call wrapper\<close>

lemma Call_effect:
  "Call v c = (snd (server v (sent v @ [c])),
               v\<lparr>sent := sent v @ [c], clock := clock v + int (fst (server v (sent v @ [c])))\<rparr>)"
  by (simp add: Call_def split: prod.splits)

lemma call_fails: "\<exists>err. fst (call v c) = Inl err"
proof -
  obtain r v' where C: "Call v c = (r, v')" by (cases "Call v c")
  show ?thesis
  proof (cases r)
    case (Failed m)
    with C show ?thesis by (simp add: call_def)
  next
    case (Stream res)
    obtain x res' where R: "ReadUint32 res = (x, res')" by (cases "ReadUint32 res")
    show ?thesis
    proof (cases x)
      case (Inl e)
      with C Stream R show ?thesis by (simp add: call_def)
    next
      case (Inr status)
      obtain err where "NFS3Error status = Some err" using NFS3Error_is_error by blast
      with C Stream R Inr show ?thesis by (simp add: call_def)
    qed
  qed
qed

lemma call_state: "snd (call v c) = snd (Call v c)"
  by (simp add: call_def split: prod.splits reply.splits sum.splits option.splits)

lemma call_cases:
  obtains err where
    "call v c = (Inl err, v\<lparr>sent := sent v @ [c], clock := clock v + int (fst (server v (sent v @ [c])))\<rparr>)"
proof -
  obtain err where "fst (call v c) = Inl err" using call_fails by blast
  moreover have "snd (call v c) =
      v\<lparr>sent := sent v @ [c], clock := clock v + int (fst (server v (sent v @ [c])))\<rparr>"
    by (simp add: call_state Call_effect)
  ultimately have "call v c =
      (Inl err, v\<lparr>sent := sent v @ [c], clock := clock v + int (fst (server v (sent v @ [c])))\<rparr>)"
    by (simp add: prod_eq_iff)
  then show ?thesis by (rule that)
qed

lemma call_ok_server:
  "server v = ok_server \<Longrightarrow>
   call v c = (Inl (Error ''error: 0''), v\<lparr>sent := sent v @ [c], clock := clock v + 1000\<rparr>)"
  by (simp add: call_def Call_def ok_server_def ReadUint32_def NFS3_OK_def NFS3Error_0)

text \<open>
  C1. The claim: a protocol status of zero is success, the status translator returns no
  error for code 0 and the call wrapper goes on to decode the response. The code: the
  translator has no case for \<open>NFS3_OK\<close>, so code 0 falls to the \<open>default\<close> branch and comes
  back as the error \<open>error: 0\<close>; the wrapper then fails on a response whose status is 0
  (here the first lookup on a fresh target, answered with status 0 and a well-formed
  body), and so on every response: no call of the wrapper ever hands a response on.
\<close>

theorem status_zero_is_an_error:
  "NFS3Error NFS3_OK = Some (Error ''error: 0'') \<and>
   call (fresh ok_server) (Lookup3Args [0] ''a'') =
     (Inl (Error ''error: 0''), (fresh ok_server)\<lparr>sent := [Lookup3Args [0] ''a''], clock := 1000\<rparr>) \<and>
   (\<forall>v c. \<exists>err. fst (call v c) = Inl err)"
proof (intro conjI allI)
  show "NFS3Error NFS3_OK = Some (Error ''error: 0'')"
    by (simp add: NFS3_OK_def NFS3Error_0)
  show "call (fresh ok_server) (Lookup3Args [0] ''a'') =
     (Inl (Error ''error: 0''), (fresh ok_server)\<lparr>sent := [Lookup3Args [0] ''a''], clock := 1000\<rparr>)"
    by (simp add: call_ok_server fresh_def)
  show "\<exists>err. fst (call v c) = Inl err" for v c
    by (rule call_fails)
qed

text \<open>
  C2, as amended. Code 2 is not-found, code 17 is already-exists, and permission-denied is
  code 1 (\<open>NFS3ERR_PERM\<close>), not code 13; every non-zero code other than 1, 2 and 17, code 13
  among them, becomes the generic error whose text is \<open>error: \<close> followed by the code in
  decimal, and two such codes never share a generic error.
\<close>

theorem NFS3Error_mapping:
  "NFS3Error 2 = Some ErrNotExist \<and>
   NFS3Error 17 = Some ErrExist \<and>
   NFS3Error 1 = Some ErrPermission \<and>
   (\<forall>c. c \<notin> {0, 1, 2, 17} \<longrightarrow> NFS3Error c = Some (Error (''error: '' @ digits10 (unat c)))) \<and>
   (\<forall>c c'. c \<notin> {0, 1, 2, 17} \<longrightarrow> c' \<notin> {0, 1, 2, 17} \<longrightarrow> NFS3Error c = NFS3Error c' \<longrightarrow> c = c')"
proof (intro conjI allI impI)
  show "NFS3Error 2 = Some ErrNotExist"
    by (simp add: NFS3Error_def NFS3ERR_PERM_def NFS3ERR_EXIST_def NFS3ERR_NOENT_def)
  show "NFS3Error 17 = Some ErrExist"
    by (simp add: NFS3Error_def NFS3ERR_PERM_def NFS3ERR_EXIST_def NFS3ERR_NOENT_def)
  show "NFS3Error 1 = Some ErrPermission"
    by (simp add: NFS3Error_def NFS3ERR_PERM_def NFS3ERR_EXIST_def NFS3ERR_NOENT_def)
  show generic: "NFS3Error c = Some (Error (''error: '' @ digits10 (unat c)))"
    if "c \<notin> {0, 1, 2, 17}" for c
    using that by (simp add: NFS3Error_def NFS3ERR_PERM_def NFS3ERR_EXIST_def NFS3ERR_NOENT_def)
  show "c = c'"
    if "c \<notin> {0, 1, 2, 17}" and "c' \<notin> {0, 1, 2, 17}" and "NFS3Error c = NFS3Error c'" for c c'
  proof -
    from that have "digits10 (unat c) = digits10 (unat c')"
      by (simp add: generic)
    then have "unat c = unat c'" by (rule digits10_inj)
    then show ?thesis by (simp add: word_unat_eq_iff)
  qed
qed

theorem NFS3Error_mapping_witness:
  "(9999 :: uint32) \<notin> {0, 1, 2, 17} \<and> NFS3Error 9999 = Some (Error ''error: 9999'') \<and>
   (13 :: uint32) \<notin> {0, 1, 2, 17} \<and> NFS3Error 13 = Some (Error ''error: 13'') \<and>
   NFS3Error 9999 \<noteq> NFS3Error 13"
proof -
  have g: "\<forall>c. c \<notin> {0, 1, 2, 17} \<longrightarrow> NFS3Error c = Some (Error (''error: '' @ digits10 (unat c)))"
    using NFS3Error_mapping by blast
  have a: "(9999 :: uint32) \<notin> {0, 1, 2, 17}" by simp
  have b: "(13 :: uint32) \<notin> {0, 1, 2, 17}" by simp
  have "NFS3Error 9999 = Some (Error (''error: '' @ digits10 (unat (9999 :: uint32))))"
    using g a by blast
  then have c: "NFS3Error 9999 = Some (Error ''error: 9999'')"
    by (simp add: digits10.simps digit_char_def)
  have "NFS3Error 13 = Some (Error (''error: '' @ digits10 (unat (13 :: uint32))))"
    using g b by blast
  then have d: "NFS3Error 13 = Some (Error ''error: 13'')"
    by (simp add: digits10.simps digit_char_def)
  from a b c d show ?thesis by simp
qed

text \<open>
  The claim as written fails at code 13 (\<open>NFS3ERR_ACCES\<close>): the translator gives it the
  generic error, not permission-denied.
\<close>

theorem NFS3Error_13_not_permission:
  "NFS3Error 13 = Some (Error ''error: 13'') \<and> NFS3Error 13 \<noteq> Some ErrPermission"
  by (simp add: NFS3Error_def NFS3ERR_PERM_def NFS3ERR_EXIST_def NFS3ERR_NOENT_def
      digits10.simps digit_char_def)

section \<open>Properties of the lookups\<close>

lemma call_fst:
  "fst (call v c) =
     (case snd (server v (sent v @ [c])) of
        Failed m \<Rightarrow> Inl (Transport m)
      | Stream res \<Rightarrow>
          (case ReadUint32 res of
             (Inl err, _) \<Rightarrow> Inl err
           | (Inr status, res') \<Rightarrow>
               (case NFS3Error status of Some err \<Rightarrow> Inl err | None \<Rightarrow> Inr res')))"
  by (simp add: call_def Call_effect split: reply.splits prod.splits sum.splits option.splits)

lemma call_snd:
  "snd (call v c) = v\<lparr>sent := sent v @ [c], clock := clock v + int (fst (server v (sent v @ [c])))\<rparr>"
  by (simp add: call_state Call_effect)

lemma lookup_snd:
  "snd (lookup v h name) =
     v\<lparr>sent := sent v @ [Lookup3Args h name],
       clock := clock v + int (fst (server v (sent v @ [Lookup3Args h name])))\<rparr>"
proof -
  have "snd (lookup v h name) = snd (call v (Lookup3Args h name))"
    by (simp add: lookup_def split: prod.splits sum.splits)
  then show ?thesis by (simp add: call_snd)
qed

lemma lookup_fst:
  "fst (lookup v h name) =
     (case fst (call v (Lookup3Args h name)) of
        Inl err \<Rightarrow> Inl err
      | Inr res \<Rightarrow>
          (case ReadLookupOk res of
             (Inl err, _) \<Rightarrow> Inl err
           | (Inr (h', a, d), _) \<Rightarrow> Inr (Attr a, h')))"
  by (simp add: lookup_def split: prod.splits sum.splits)

lemma lookup_fst_cong:
  "server v' = server v \<Longrightarrow> sent v' = sent v \<Longrightarrow> fst (lookup v' h name) = fst (lookup v h name)"
  by (simp add: lookup_fst call_fst)

lemma lookup_fails: "\<exists>err. fst (lookup v h name) = Inl err"
proof -
  obtain err where "fst (call v (Lookup3Args h name)) = Inl err" using call_fails by blast
  then show ?thesis by (simp add: lookup_fst)
qed

lemma cachedLookup_miss:
  assumes "(case map_of (entries v) (parsefh h) of None \<Rightarrow> None | Some m \<Rightarrow> map_of m name) = None
           \<or> (\<exists>m e. map_of (entries v) (parsefh h) = Some m \<and> map_of m name = Some e \<and> expire e \<le> clock v)"
  shows "cachedLookup v h name = lookup v h name"
proof -
  obtain err where "fst (lookup v h name) = Inl err" using lookup_fails by blast
  then obtain v' where l: "lookup v h name = (Inl err, v')"
    by (cases "lookup v h name") simp
  have "cachedLookup v h name = (Inl err, v')"
    using assms by (auto simp: cachedLookup_def Let_def l split: option.splits)
  with l show ?thesis by simp
qed

lemma cachedLookup_hit:
  assumes "map_of (entries v) (parsefh h) = Some es" and "map_of es name = Some e"
    and "clock v < expire e"
  shows "cachedLookup v h name = (Inr (eattr e, efh e), v)"
  using assms by (simp add: cachedLookup_def Let_def)

lemma invalidate_absent:
  assumes "map_of (entries v) (parsefh h) = Some es"
  shows "(case map_of (entries (invalidateEntryCache v h name)) (parsefh h) of
            None \<Rightarrow> None | Some m \<Rightarrow> map_of m name) = None"
  using assms by (simp add: invalidateEntryCache_def Let_def update_conv' delete_conv')

lemma invalidate_client:
  "server (invalidateEntryCache v h name) = server v"
  "sent (invalidateEntryCache v h name) = sent v"
  "clock (invalidateEntryCache v h name) = clock v"
  by (simp_all add: invalidateEntryCache_def Let_def split: option.splits)

text \<open>
  C3. For a cache entry \<open>e\<close> stored under \<open>(h, name)\<close>: while the clock is strictly before
  \<open>expire e\<close>, \<open>cachedLookup\<close> returns the stored attributes and handle and leaves the
  target as it was, so nothing is sent; once the clock has reached \<open>expire e\<close>, exactly one
  LOOKUP request for \<open>(h, name)\<close> is sent and the result is that of the remote lookup, the
  same result and the same request as when the entry is not in the cache at all.
\<close>

theorem cachedLookup_honours_expiry:
  assumes "map_of (entries v) (parsefh h) = Some es" and "map_of es name = Some e"
  shows "(clock v < expire e \<longrightarrow> cachedLookup v h name = (Inr (eattr e, efh e), v)) \<and>
         (expire e \<le> clock v \<longrightarrow>
            fst (cachedLookup v h name) = fst (lookup v h name) \<and>
            sent (snd (cachedLookup v h name)) = sent v @ [Lookup3Args h name] \<and>
            fst (cachedLookup v h name) = fst (cachedLookup (invalidateEntryCache v h name) h name) \<and>
            sent (snd (cachedLookup v h name)) =
              sent (snd (cachedLookup (invalidateEntryCache v h name) h name)))"
proof (intro conjI impI)
  assume "clock v < expire e"
  with assms show "cachedLookup v h name = (Inr (eattr e, efh e), v)"
    by (rule cachedLookup_hit)
next
  assume late: "expire e \<le> clock v"
  with assms have miss: "cachedLookup v h name = lookup v h name"
    by (intro cachedLookup_miss) blast
  have miss': "cachedLookup (invalidateEntryCache v h name) h name =
      lookup (invalidateEntryCache v h name) h name"
    using invalidate_absent [OF assms(1)] by (intro cachedLookup_miss) blast
  show "fst (cachedLookup v h name) = fst (lookup v h name)"
    by (simp add: miss)
  show "sent (snd (cachedLookup v h name)) = sent v @ [Lookup3Args h name]"
    by (simp add: miss lookup_snd)
  show "fst (cachedLookup v h name) = fst (cachedLookup (invalidateEntryCache v h name) h name)"
    using lookup_fst_cong [of "invalidateEntryCache v h name" v h name]
    by (simp add: miss miss' invalidate_client)
  show "sent (snd (cachedLookup v h name)) =
      sent (snd (cachedLookup (invalidateEntryCache v h name) h name))"
    by (simp add: miss miss' lookup_snd invalidate_client)
qed

lemma seeded_a:
  "map_of (entries (seeded srv t)) (parsefh [0]) =
     Some [(''.'', \<lparr>efh = [0], eattr = dirAttr, expire = 5000000000\<rparr>),
           (''a'', \<lparr>efh = [0, 1], eattr = dirAttr, expire = 5000000000\<rparr>),
           (''d'', \<lparr>efh = [0, 2], eattr = dirAttr, expire = 5000000000\<rparr>)]"
  by (simp add: seeded_def fresh_def parsefh_def)

theorem cachedLookup_honours_expiry_witness:
  "cachedLookup (seeded ok_server 4999999999) [0] ''a'' = (Inr (dirAttr, [0, 1]), seeded ok_server 4999999999) \<and>
   sent (snd (cachedLookup (seeded ok_server 5000000000) [0] ''a'')) = [Lookup3Args [0] ''a'']"
proof -
  have m: "map_of [(''.'', \<lparr>efh = [0], eattr = dirAttr, expire = 5000000000\<rparr>),
           (''a'', \<lparr>efh = [0, 1], eattr = dirAttr, expire = 5000000000\<rparr>),
           (''d'', \<lparr>efh = [0, 2], eattr = dirAttr, expire = 5000000000\<rparr>)] ''a''
        = Some \<lparr>efh = [0, 1], eattr = dirAttr, expire = 5000000000\<rparr>"
    by simp
  have "cachedLookup (seeded ok_server 4999999999) [0] ''a'' = (Inr (dirAttr, [0, 1]), seeded ok_server 4999999999)"
    using cachedLookup_honours_expiry [OF seeded_a m, of ok_server 4999999999]
    by (simp add: seeded_def fresh_def)
  moreover have "sent (snd (cachedLookup (seeded ok_server 5000000000) [0] ''a'')) = [Lookup3Args [0] ''a'']"
    using cachedLookup_honours_expiry [OF seeded_a m, of ok_server 5000000000]
    by (simp add: seeded_def fresh_def)
  ultimately show ?thesis by simp
qed

lemma lookup_cases:
  obtains err where
    "lookup v h name =
       (Inl err, v\<lparr>sent := sent v @ [Lookup3Args h name],
                   clock := clock v + int (fst (server v (sent v @ [Lookup3Args h name])))\<rparr>)"
proof -
  obtain err where "fst (lookup v h name) = Inl err" using lookup_fails by blast
  then have "lookup v h name =
       (Inl err, v\<lparr>sent := sent v @ [Lookup3Args h name],
                   clock := clock v + int (fst (server v (sent v @ [Lookup3Args h name])))\<rparr>)"
    by (simp add: prod_eq_iff lookup_snd)
  then show ?thesis by (rule that)
qed

lemma lookup_ok_server:
  "server v = ok_server \<Longrightarrow>
   lookup v h name =
     (Inl (Error ''error: 0''), v\<lparr>sent := sent v @ [Lookup3Args h name], clock := clock v + 1000\<rparr>)"
  by (simp add: lookup_def call_ok_server)

lemma cachedLookup_entries: "entries (snd (cachedLookup v h name)) = entries v"
proof -
  obtain err where l: "lookup v h name =
       (Inl err, v\<lparr>sent := sent v @ [Lookup3Args h name],
                   clock := clock v + int (fst (server v (sent v @ [Lookup3Args h name])))\<rparr>)"
    by (rule lookup_cases)
  show ?thesis
    by (simp add: cachedLookup_def Let_def l split: option.splits)
qed

lemma fresh_simps:
  "server (fresh srv) = srv" "sent (fresh srv) = []" "clock (fresh srv) = 0"
  "fh (fresh srv) = [0]" "entries (fresh srv) = []"
  by (simp_all add: fresh_def)

text \<open>
  C4. The claim: a component resolved by a remote lookup gets a cache entry exactly when
  its attributes say directory. The code: on a fresh target the server answers the lookup
  of \<open>a\<close> with status 0, a handle and directory attributes (type 2), and \<open>cachedLookup\<close>
  (and \<open>Lookup\<close> of the path \<open>a\<close>) returns the error \<open>error: 0\<close> with the cache still
  empty. No remote lookup ever comes back without an error (the status translator turns
  status 0 into one), so \<open>cachedLookup\<close> never changes the cache at all.
\<close>

theorem resolved_directory_is_not_cached:
  "cachedLookup (fresh ok_server) [0] ''a'' =
     (Inl (Error ''error: 0''), (fresh ok_server)\<lparr>sent := [Lookup3Args [0] ''a''], clock := 1000\<rparr>) \<and>
   Lookup (fresh ok_server) ''a'' =
     (Inl (Error ''error: 0''), (fresh ok_server)\<lparr>sent := [Lookup3Args [0] ''a''], clock := 1000\<rparr>) \<and>
   (\<forall>v h name. entries (snd (cachedLookup v h name)) = entries v)"
proof (intro conjI allI)
  show c: "cachedLookup (fresh ok_server) [0] ''a'' =
     (Inl (Error ''error: 0''), (fresh ok_server)\<lparr>sent := [Lookup3Args [0] ''a''], clock := 1000\<rparr>)"
    by (simp add: cachedLookup_def Let_def lookup_ok_server fresh_simps)
  have "split_slash (path_Clean ''a'') = [''a'']"
    by (simp add: path_Clean_def)
  then show "Lookup (fresh ok_server) ''a'' =
     (Inl (Error ''error: 0''), (fresh ok_server)\<lparr>sent := [Lookup3Args [0] ''a''], clock := 1000\<rparr>)"
    by (simp add: Lookup_def c fresh_simps)
  show "entries (snd (cachedLookup v h name)) = entries v" for v h name
    by (rule cachedLookup_entries)
qed

section \<open>Properties of the directory pager\<close>

lemma readDirPlus_cases:
  obtains err where
    "readDirPlus (Suc n) v h =
       Some (Inl err, v\<lparr>sent := sent v @ [ReadDirPlus3Args h 0 0 512 4096],
                         clock := clock v + int (fst (server v (sent v @ [ReadDirPlus3Args h 0 0 512 4096])))\<rparr>)"
proof -
  obtain err where "call v (ReadDirPlus3Args h 0 0 512 4096) =
      (Inl err, v\<lparr>sent := sent v @ [ReadDirPlus3Args h 0 0 512 4096],
                  clock := clock v + int (fst (server v (sent v @ [ReadDirPlus3Args h 0 0 512 4096])))\<rparr>)"
    by (rule call_cases)
  then have "readDirPlus (Suc n) v h =
       Some (Inl err, v\<lparr>sent := sent v @ [ReadDirPlus3Args h 0 0 512 4096],
                         clock := clock v + int (fst (server v (sent v @ [ReadDirPlus3Args h 0 0 512 4096])))\<rparr>)"
    by (simp add: readDirPlus_def readDirPlus_loop.simps [of "Suc n"])
  then show ?thesis by (rule that)
qed

text \<open>
  C5. The claim: the pager reads page after page until the end-of-listing flag and returns
  all entries, three entries on two pages with two calls. The code: against the server
  that splits three entries across two pages, \<open>readDirPlus\<close> sends the first request
  (cookie 0, verifier 0), gets status 0 back, and returns the error \<open>error: 0\<close>: no second
  request, no entries. The same holds for every server: given any fuel, the pager returns
  an error after exactly one request.
\<close>

theorem readDirPlus_fails_on_first_page:
  "readDirPlus 5 (fresh ok_server) [0, 1] =
     Some (Inl (Error ''error: 0''),
           (fresh ok_server)\<lparr>sent := [ReadDirPlus3Args [0, 1] 0 0 512 4096], clock := 1000\<rparr>) \<and>
   (\<forall>n v h. \<exists>err v'. readDirPlus (Suc n) v h = Some (Inl err, v') \<and>
       sent v' = sent v @ [ReadDirPlus3Args h 0 0 512 4096])"
proof (intro conjI allI)
  show "readDirPlus 5 (fresh ok_server) [0, 1] =
     Some (Inl (Error ''error: 0''),
           (fresh ok_server)\<lparr>sent := [ReadDirPlus3Args [0, 1] 0 0 512 4096], clock := 1000\<rparr>)"
    by (simp add: readDirPlus_def readDirPlus_loop.simps [of 5] call_ok_server fresh_simps)
  show "\<exists>err v'. readDirPlus (Suc n) v h = Some (Inl err, v') \<and>
       sent v' = sent v @ [ReadDirPlus3Args h 0 0 512 4096]" for n v h
  proof -
    obtain err where "readDirPlus (Suc n) v h =
       Some (Inl err, v\<lparr>sent := sent v @ [ReadDirPlus3Args h 0 0 512 4096],
                         clock := clock v + int (fst (server v (sent v @ [ReadDirPlus3Args h 0 0 512 4096])))\<rparr>)"
      by (rule readDirPlus_cases)
    then show ?thesis by simp
  qed
qed

section \<open>Properties of the mutation operations\<close>

lemma Lookup_loop_entries: "entries (snd (Lookup_loop v a h ds)) = entries v"
proof (induction ds arbitrary: v a h)
  case Nil
  show ?case by simp
next
  case (Cons d ds)
  obtain r v' where c: "cachedLookup v h (if d = [] then ''.'' else d) = (r, v')"
    by (cases "cachedLookup v h (if d = [] then ''.'' else d)")
  have e: "entries v' = entries v"
    using cachedLookup_entries [of v h "if d = [] then ''.'' else d"] c by simp
  show ?case
  proof (cases r)
    case (Inl err)
    with c e show ?thesis by simp
  next
    case (Inr p)
    obtain a' h' where "p = (a', h')" by (cases p)
    with Inr c e Cons.IH [of v' "Some a'" h'] show ?thesis by simp
  qed
qed

lemma Lookup_entries: "entries (snd (Lookup v p)) = entries v"
  by (simp add: Lookup_def Lookup_loop_entries)

lemma call_entries: "entries (snd (call v c)) = entries v"
  by (simp add: call_state Call_effect)

lemma rmDir_cases:
  obtains err where
    "rmDir v h name =
       (Some err, v\<lparr>sent := sent v @ [RmDir3Args h name],
                    clock := clock v + int (fst (server v (sent v @ [RmDir3Args h name])))\<rparr>)"
proof -
  obtain err where "call v (RmDir3Args h name) =
      (Inl err, v\<lparr>sent := sent v @ [RmDir3Args h name],
                  clock := clock v + int (fst (server v (sent v @ [RmDir3Args h name])))\<rparr>)"
    by (rule call_cases)
  then have "rmDir v h name =
       (Some err, v\<lparr>sent := sent v @ [RmDir3Args h name],
                    clock := clock v + int (fst (server v (sent v @ [RmDir3Args h name])))\<rparr>)"
    by (simp add: rmDir_def)
  then show ?thesis by (rule that)
qed

lemma remove_cases:
  obtains err where
    "remove v h name =
       (Some err, v\<lparr>sent := sent v @ [RemoveArgs h name],
                    clock := clock v + int (fst (server v (sent v @ [RemoveArgs h name])))\<rparr>)"
proof -
  obtain err where "call v (RemoveArgs h name) =
      (Inl err, v\<lparr>sent := sent v @ [RemoveArgs h name],
                  clock := clock v + int (fst (server v (sent v @ [RemoveArgs h name])))\<rparr>)"
    by (rule call_cases)
  then have "remove v h name =
       (Some err, v\<lparr>sent := sent v @ [RemoveArgs h name],
                    clock := clock v + int (fst (server v (sent v @ [RemoveArgs h name])))\<rparr>)"
    by (simp add: remove_def)
  then show ?thesis by (rule that)
qed

lemma Mkdir_fails:
  "\<exists>err. fst (Mkdir v path perm) = Inl err" "entries (snd (Mkdir v path perm)) = entries v"
proof -
  obtain dir newDir where s: "filepath_Split path = (dir, newDir)" by (cases "filepath_Split path")
  obtain r v1 where l: "Lookup v dir = (r, v1)" by (cases "Lookup v dir")
  have e1: "entries v1 = entries v" using Lookup_entries [of v dir] l by simp
  have "(\<exists>err. fst (Mkdir v path perm) = Inl err) \<and> entries (snd (Mkdir v path perm)) = entries v"
  proof (cases r)
    case (Inl err)
    with s l e1 show ?thesis by (simp add: Mkdir_def)
  next
    case (Inr p)
    obtain a h where p: "p = (a, h)" by (cases p)
    obtain err where "call v1 (MkdirArgs h newDir (perm AND 511)) =
      (Inl err, v1\<lparr>sent := sent v1 @ [MkdirArgs h newDir (perm AND 511)],
           clock := clock v1 + int (fst (server v1 (sent v1 @ [MkdirArgs h newDir (perm AND 511)])))\<rparr>)"
      by (rule call_cases)
    with s l e1 Inr p show ?thesis by (simp add: Mkdir_def)
  qed
  then show "\<exists>err. fst (Mkdir v path perm) = Inl err" "entries (snd (Mkdir v path perm)) = entries v"
    by simp_all
qed

lemma Create_fails:
  "\<exists>err. fst (Create v path perm) = Inl err" "entries (snd (Create v path perm)) = entries v"
proof -
  obtain dir newFile where s: "filepath_Split path = (dir, newFile)" by (cases "filepath_Split path")
  obtain r v1 where l: "Lookup v dir = (r, v1)" by (cases "Lookup v dir")
  have e1: "entries v1 = entries v" using Lookup_entries [of v dir] l by simp
  have "(\<exists>err. fst (Create v path perm) = Inl err) \<and> entries (snd (Create v path perm)) = entries v"
  proof (cases r)
    case (Inl err)
    with s l e1 show ?thesis by (simp add: Create_def)
  next
    case (Inr p)
    obtain a h where p: "p = (a, h)" by (cases p)
    obtain err where "call v1 (Create3Args h newFile 0 (perm AND 511)) =
      (Inl err, v1\<lparr>sent := sent v1 @ [Create3Args h newFile 0 (perm AND 511)],
           clock := clock v1 + int (fst (server v1 (sent v1 @ [Create3Args h newFile 0 (perm AND 511)])))\<rparr>)"
      by (rule call_cases)
    with s l e1 Inr p show ?thesis by (simp add: Create_def)
  qed
  then show "\<exists>err. fst (Create v path perm) = Inl err" "entries (snd (Create v path perm)) = entries v"
    by simp_all
qed

lemma Remove_fails:
  "\<exists>err. fst (Remove v path) = Some err" "entries (snd (Remove v path)) = entries v"
proof -
  obtain dir name where s: "filepath_Split path = (dir, name)" by (cases "filepath_Split path")
  obtain r v1 where l: "Lookup v dir = (r, v1)" by (cases "Lookup v dir")
  have e1: "entries v1 = entries v" using Lookup_entries [of v dir] l by simp
  have "(\<exists>err. fst (Remove v path) = Some err) \<and> entries (snd (Remove v path)) = entries v"
  proof (cases r)
    case (Inl err)
    with s l e1 show ?thesis by (simp add: Remove_def)
  next
    case (Inr p)
    obtain a h where p: "p = (a, h)" by (cases p)
    obtain err where "remove v1 h name =
       (Some err, v1\<lparr>sent := sent v1 @ [RemoveArgs h name],
                    clock := clock v1 + int (fst (server v1 (sent v1 @ [RemoveArgs h name])))\<rparr>)"
      by (rule remove_cases)
    with s l e1 Inr p show ?thesis by (simp add: Remove_def)
  qed
  then show "\<exists>err. fst (Remove v path) = Some err" "entries (snd (Remove v path)) = entries v"
    by simp_all
qed

lemma RmDir_fails:
  "\<exists>err. fst (RmDir v path) = Some err" "entries (snd (RmDir v path)) = entries v"
proof -
  obtain dir name where s: "filepath_Split path = (dir, name)" by (cases "filepath_Split path")
  obtain r v1 where l: "Lookup v dir = (r, v1)" by (cases "Lookup v dir")
  have e1: "entries v1 = entries v" using Lookup_entries [of v dir] l by simp
  have "(\<exists>err. fst (RmDir v path) = Some err) \<and> entries (snd (RmDir v path)) = entries v"
  proof (cases r)
    case (Inl err)
    with s l e1 show ?thesis by (simp add: RmDir_def)
  next
    case (Inr p)
    obtain a h where p: "p = (a, h)" by (cases p)
    obtain err where "rmDir v1 h name =
       (Some err, v1\<lparr>sent := sent v1 @ [RmDir3Args h name],
                    clock := clock v1 + int (fst (server v1 (sent v1 @ [RmDir3Args h name])))\<rparr>)"
      by (rule rmDir_cases)
    with s l e1 Inr p show ?thesis by (simp add: RmDir_def)
  qed
  then show "\<exists>err. fst (RmDir v path) = Some err" "entries (snd (RmDir v path)) = entries v"
    by simp_all
qed

lemma seeded_simps:
  "server (seeded srv t) = srv" "sent (seeded srv t) = []" "clock (seeded srv t) = t"
  "fh (seeded srv t) = [0]"
  "entries (seeded srv t) =
     [([0], [(''.'', \<lparr>efh = [0], eattr = dirAttr, expire = 5000000000\<rparr>),
             (''a'', \<lparr>efh = [0, 1], eattr = dirAttr, expire = 5000000000\<rparr>),
             (''d'', \<lparr>efh = [0, 2], eattr = dirAttr, expire = 5000000000\<rparr>)])]"
  by (simp_all add: seeded_def fresh_def)

lemma Lookup_fresh_dot:
  "Lookup (fresh ok_server) [] =
     (Inl (Error ''error: 0''), (fresh ok_server)\<lparr>sent := [Lookup3Args [0] ''.''], clock := 1000\<rparr>)"
proof -
  have "split_slash (path_Clean []) = [''.'']" by (simp add: path_Clean_def)
  then show ?thesis
    by (simp add: Lookup_def cachedLookup_def Let_def lookup_ok_server fresh_simps)
qed

lemma Lookup_seeded_dot:
  "Lookup (seeded srv 0) [] = (Inr (Some dirAttr, [0]), seeded srv 0)"
proof -
  have "split_slash (path_Clean []) = [''.'']" by (simp add: path_Clean_def)
  then show ?thesis
    by (simp add: Lookup_def cachedLookup_def Let_def seeded_simps parsefh_def)
qed

lemma Split_plain: "filepath_Split ''d'' = ([], ''d'')" "filepath_Split ''a'' = ([], ''a'')"
  by (simp_all add: filepath_Split_def)

lemma call_seeded_ok:
  "call (seeded ok_server 0) c =
     (Inl (Error ''error: 0''), (seeded ok_server 0)\<lparr>sent := [c], clock := 1000\<rparr>)"
  by (simp add: call_ok_server seeded_simps)

text \<open>
  C8. The claim: a mutation that succeeds invalidates the cached entry of the affected
  name, and one that fails leaves the cache as it is. The code: with the server answering
  every request with status 0, \<open>Mkdir\<close> of \<open>d\<close> on a fresh target returns the error
  \<open>error: 0\<close> from the lookup of the parent; with the parent and \<open>d\<close> already in the cache,
  \<open>Mkdir\<close>, \<open>Create\<close>, \<open>Remove\<close> and \<open>RmDir\<close> each send their one request, which the server
  carries out, and each returns \<open>error: 0\<close> with the entry of \<open>d\<close> still cached. None of the
  four ever returns success, and none ever changes the cache.
\<close>

theorem mutation_success_is_an_error:
  "Mkdir (fresh ok_server) ''d'' 493 =
     (Inl (Error ''error: 0''), (fresh ok_server)\<lparr>sent := [Lookup3Args [0] ''.''], clock := 1000\<rparr>) \<and>
   Mkdir (seeded ok_server 0) ''d'' 493 =
     (Inl (Error ''error: 0''), (seeded ok_server 0)\<lparr>sent := [MkdirArgs [0] ''d'' 493], clock := 1000\<rparr>) \<and>
   Create (seeded ok_server 0) ''d'' 420 =
     (Inl (Error ''error: 0''), (seeded ok_server 0)\<lparr>sent := [Create3Args [0] ''d'' 0 420], clock := 1000\<rparr>) \<and>
   Remove (seeded ok_server 0) ''d'' =
     (Some (Error ''error: 0''), (seeded ok_server 0)\<lparr>sent := [RemoveArgs [0] ''d''], clock := 1000\<rparr>) \<and>
   RmDir (seeded ok_server 0) ''d'' =
     (Some (Error ''error: 0''), (seeded ok_server 0)\<lparr>sent := [RmDir3Args [0] ''d''], clock := 1000\<rparr>) \<and>
   (\<forall>v path perm.
      (\<exists>err. fst (Mkdir v path perm) = Inl err) \<and> entries (snd (Mkdir v path perm)) = entries v \<and>
      (\<exists>err. fst (Create v path perm) = Inl err) \<and> entries (snd (Create v path perm)) = entries v \<and>
      (\<exists>err. fst (Remove v path) = Some err) \<and> entries (snd (Remove v path)) = entries v \<and>
      (\<exists>err. fst (RmDir v path) = Some err) \<and> entries (snd (RmDir v path)) = entries v)"
proof (intro conjI allI)
  show "Mkdir (fresh ok_server) ''d'' 493 =
     (Inl (Error ''error: 0''), (fresh ok_server)\<lparr>sent := [Lookup3Args [0] ''.''], clock := 1000\<rparr>)"
    by (simp add: Mkdir_def Split_plain Lookup_fresh_dot)
  show "Mkdir (seeded ok_server 0) ''d'' 493 =
     (Inl (Error ''error: 0''), (seeded ok_server 0)\<lparr>sent := [MkdirArgs [0] ''d'' 493], clock := 1000\<rparr>)"
    by (simp add: Mkdir_def Split_plain Lookup_seeded_dot call_seeded_ok)
  show "Create (seeded ok_server 0) ''d'' 420 =
     (Inl (Error ''error: 0''), (seeded ok_server 0)\<lparr>sent := [Create3Args [0] ''d'' 0 420], clock := 1000\<rparr>)"
    by (simp add: Create_def Split_plain Lookup_seeded_dot call_seeded_ok)
  show "Remove (seeded ok_server 0) ''d'' =
     (Some (Error ''error: 0''), (seeded ok_server 0)\<lparr>sent := [RemoveArgs [0] ''d''], clock := 1000\<rparr>)"
    by (simp add: Remove_def remove_def Split_plain Lookup_seeded_dot call_seeded_ok)
  show "RmDir (seeded ok_server 0) ''d'' =
     (Some (Error ''error: 0''), (seeded ok_server 0)\<lparr>sent := [RmDir3Args [0] ''d''], clock := 1000\<rparr>)"
    by (simp add: RmDir_def rmDir_def Split_plain Lookup_seeded_dot call_seeded_ok)
  show "\<exists>err. fst (Mkdir v path perm) = Inl err" for v path perm by (rule Mkdir_fails)
  show "entries (snd (Mkdir v path perm)) = entries v" for v path perm by (rule Mkdir_fails)
  show "\<exists>err. fst (Create v path perm) = Inl err" for v path perm by (rule Create_fails)
  show "entries (snd (Create v path perm)) = entries v" for v path perm by (rule Create_fails)
  show "\<exists>err. fst (Remove v path) = Some err" for v path by (rule Remove_fails)
  show "entries (snd (Remove v path)) = entries v" for v path by (rule Remove_fails)
  show "\<exists>err. fst (RmDir v path) = Some err" for v path by (rule RmDir_fails)
  show "entries (snd (RmDir v path)) = entries v" for v path by (rule RmDir_fails)
qed

section \<open>Properties of the recursive delete\<close>

lemma removeAll_cases:
  obtains err where
    "removeAll (Suc n) v h =
       Some (Some err, v\<lparr>sent := sent v @ [ReadDirPlus3Args h 0 0 512 4096],
                          clock := clock v + int (fst (server v (sent v @ [ReadDirPlus3Args h 0 0 512 4096])))\<rparr>)"
proof -
  obtain err where "readDirPlus (Suc n) v h =
       Some (Inl err, v\<lparr>sent := sent v @ [ReadDirPlus3Args h 0 0 512 4096],
                         clock := clock v + int (fst (server v (sent v @ [ReadDirPlus3Args h 0 0 512 4096])))\<rparr>)"
    by (rule readDirPlus_cases)
  then have "removeAll (Suc n) v h =
       Some (Some err, v\<lparr>sent := sent v @ [ReadDirPlus3Args h 0 0 512 4096],
                          clock := clock v + int (fst (server v (sent v @ [ReadDirPlus3Args h 0 0 512 4096])))\<rparr>)"
    by simp
  then show ?thesis by (rule that)
qed

lemma digits10_20: "digits10 (unat NFS3ERR_NOTDIR) = ''20''"
  by (simp add: NFS3ERR_NOTDIR_def digits10.simps digit_char_def)

lemma NFS3Error_66: "NFS3Error NFS3ERR_NOTEMPTY = Some (Error ''error: 66'')"
  by (simp add: NFS3Error_def NFS3ERR_NOTEMPTY_def NFS3ERR_PERM_def NFS3ERR_EXIST_def
      NFS3ERR_NOENT_def digits10.simps digit_char_def)

lemma Lookup_fresh_a:
  "Lookup (fresh gone_server) ''a/'' =
     (Inl (Error ''error: 0''), (fresh gone_server)\<lparr>sent := [Lookup3Args [0] ''a''], clock := 1000\<rparr>)"
proof -
  have "split_slash (path_Clean ''a/'') = [''a'']" by (simp add: path_Clean_def)
  then show ?thesis
    by (simp add: Lookup_def cachedLookup_def Let_def lookup_def call_def Call_def gone_server_def
        ReadUint32_def NFS3_OK_def NFS3Error_0 fresh_simps)
qed

text \<open>
  C6. The claim: recursive delete first tries a plain removal of the leaf; if that
  succeeds or fails with does-not-exist the operation succeeds, so the removal of a path
  that does not exist returns no error. The code: on a fresh target, \<open>RemoveAll\<close> of
  \<open>a/b\<close>, where \<open>a\<close> exists and \<open>b\<close> does not, returns the error \<open>error: 0\<close> from the lookup of
  \<open>a\<close> and never sends the removal; and with the parent already in the cache, \<open>RemoveAll\<close>
  of \<open>a\<close> sends the removal, which the server carries out with status 0, takes the answer
  for a failure that is neither does-not-exist nor not-a-directory, goes on to look \<open>a\<close>
  up and returns \<open>error: 0\<close>.
\<close>

theorem RemoveAll_reports_success_as_error:
  "RemoveAll 5 (fresh gone_server) ''a/b'' =
     Some (Some (Error ''error: 0''),
           (fresh gone_server)\<lparr>sent := [Lookup3Args [0] ''a''], clock := 1000\<rparr>) \<and>
   RemoveAll 5 (seeded ok_server 0) ''a'' =
     Some (Some (Error ''error: 0''),
           (seeded ok_server 0)\<lparr>sent := [RmDir3Args [0] ''a'', Lookup3Args [0] ''a''], clock := 2000\<rparr>)"
proof (intro conjI)
  have "filepath_Split ''a/b'' = (''a/'', ''b'')" by (simp add: filepath_Split_def)
  then show "RemoveAll 5 (fresh gone_server) ''a/b'' =
     Some (Some (Error ''error: 0''),
           (fresh gone_server)\<lparr>sent := [Lookup3Args [0] ''a''], clock := 1000\<rparr>)"
    by (simp add: RemoveAll_def Lookup_fresh_a)
  have r: "rmDir (seeded ok_server 0) [0] ''a'' =
      (Some (Error ''error: 0''), (seeded ok_server 0)\<lparr>sent := [RmDir3Args [0] ''a''], clock := 1000\<rparr>)"
    by (simp add: rmDir_def call_seeded_ok)
  have l: "lookup ((seeded ok_server 0)\<lparr>sent := [RmDir3Args [0] ''a''], clock := 1000\<rparr>) [0] ''a'' =
      (Inl (Error ''error: 0''),
       (seeded ok_server 0)\<lparr>sent := [RmDir3Args [0] ''a'', Lookup3Args [0] ''a''], clock := 2000\<rparr>)"
    by (simp add: lookup_ok_server seeded_simps)
  show "RemoveAll 5 (seeded ok_server 0) ''a'' =
     Some (Some (Error ''error: 0''),
           (seeded ok_server 0)\<lparr>sent := [RmDir3Args [0] ''a'', Lookup3Args [0] ''a''], clock := 2000\<rparr>)"
    by (simp add: RemoveAll_def Split_plain Lookup_seeded_dot r l os_IsNotExist_def
        IsNotDirError_def digits10_20)
qed

lemma call_tree_server:
  "server v = tree_server \<Longrightarrow> \<not> list_ex is_RemoveArgs (sent v) \<Longrightarrow>
   call v c =
     (Inl (Error (if (case c of RmDir3Args h name \<Rightarrow> True | _ \<Rightarrow> False) then ''error: 66'' else ''error: 0'')),
      v\<lparr>sent := sent v @ [c], clock := clock v + 1000\<rparr>)"
  by (cases c)
     (simp_all add: call_def Call_def tree_server_def ReadUint32_def NFS3_OK_def NFS3Error_0
        NFS3Error_66 list_ex_iff)

text \<open>
  C7. The claim: for a non-empty directory, recursive delete lists it, removes every entry
  but \<open>.\<close> and \<open>..\<close> depth-first, and then removes the directory itself. The code, for a
  directory \<open>a\<close> that holds the one file \<open>d.txt\<close>: on a fresh target \<open>RemoveAll\<close> of \<open>a\<close>
  returns \<open>error: 0\<close> from the lookup of the parent; with the parent in the cache it sends
  the plain removal (refused, not empty), looks \<open>a\<close> up and returns \<open>error: 0\<close> from that
  lookup, without listing or removing anything. The loop over the entries, given the
  listing, skips \<open>.\<close> and \<open>..\<close>, sends the removal of \<open>d.txt\<close>, which the server carries out,
  and stops with \<open>error: 0\<close>. For every server and directory, \<open>removeAll\<close> returns an error
  after its first listing request.
\<close>

theorem RemoveAll_never_empties_a_directory:
  "RemoveAll 5 (fresh tree_server) ''a'' =
     Some (Some (Error ''error: 0''),
           (fresh tree_server)\<lparr>sent := [Lookup3Args [0] ''.''], clock := 1000\<rparr>) \<and>
   RemoveAll 5 (seeded tree_server 0) ''a'' =
     Some (Some (Error ''error: 0''),
           (seeded tree_server 0)\<lparr>sent := [RmDir3Args [0] ''a'', Lookup3Args [0] ''a''], clock := 2000\<rparr>) \<and>
   removeAll_entries 5 (fresh tree_server) [0, 1] [entry_dot, entry_dotdot, entry_d] =
     Some (Some (Error ''error: 0''),
           (fresh tree_server)\<lparr>sent := [RemoveArgs [0, 1] ''d.txt''], clock := 1000\<rparr>) \<and>
   (\<forall>n v h. \<exists>err v'. removeAll (Suc n) v h = Some (Some err, v') \<and>
       sent v' = sent v @ [ReadDirPlus3Args h 0 0 512 4096])"
proof (intro conjI allI)
  have d: "split_slash (path_Clean []) = [''.'']" by (simp add: path_Clean_def)
  have "Lookup (fresh tree_server) [] =
     (Inl (Error ''error: 0''), (fresh tree_server)\<lparr>sent := [Lookup3Args [0] ''.''], clock := 1000\<rparr>)"
    using d by (simp add: Lookup_def cachedLookup_def Let_def lookup_def call_tree_server fresh_simps)
  then show "RemoveAll 5 (fresh tree_server) ''a'' =
     Some (Some (Error ''error: 0''),
           (fresh tree_server)\<lparr>sent := [Lookup3Args [0] ''.''], clock := 1000\<rparr>)"
    by (simp add: RemoveAll_def Split_plain)
  have r: "rmDir (seeded tree_server 0) [0] ''a'' =
      (Some (Error ''error: 66''), (seeded tree_server 0)\<lparr>sent := [RmDir3Args [0] ''a''], clock := 1000\<rparr>)"
    by (simp add: rmDir_def call_tree_server seeded_simps)
  have l: "lookup ((seeded tree_server 0)\<lparr>sent := [RmDir3Args [0] ''a''], clock := 1000\<rparr>) [0] ''a'' =
      (Inl (Error ''error: 0''),
       (seeded tree_server 0)\<lparr>sent := [RmDir3Args [0] ''a'', Lookup3Args [0] ''a''], clock := 2000\<rparr>)"
    by (simp add: lookup_def call_tree_server seeded_simps is_RemoveArgs_def)
  show "RemoveAll 5 (seeded tree_server 0) ''a'' =
     Some (Some (Error ''error: 0''),
           (seeded tree_server 0)\<lparr>sent := [RmDir3Args [0] ''a'', Lookup3Args [0] ''a''], clock := 2000\<rparr>)"
    by (simp add: RemoveAll_def Split_plain Lookup_seeded_dot r l os_IsNotExist_def
        IsNotDirError_def digits10_20)
  show "removeAll_entries 5 (fresh tree_server) [0, 1] [entry_dot, entry_dotdot, entry_d] =
     Some (Some (Error ''error: 0''),
           (fresh tree_server)\<lparr>sent := [RemoveArgs [0, 1] ''d.txt''], clock := 1000\<rparr>)"
    by (simp add: entry_dot_def entry_dotdot_def entry_d_def fileAttr_def NF3Dir_def
        remove_def call_tree_server fresh_simps)
  show "\<exists>err v'. removeAll (Suc n) v h = Some (Some err, v') \<and>
       sent v' = sent v @ [ReadDirPlus3Args h 0 0 512 4096]" for n v h
  proof -
    obtain err where "removeAll (Suc n) v h =
       Some (Some err, v\<lparr>sent := sent v @ [ReadDirPlus3Args h 0 0 512 4096],
                          clock := clock v + int (fst (server v (sent v @ [ReadDirPlus3Args h 0 0 512 4096])))\<rparr>)"
      by (rule removeAll_cases)
    then show ?thesis by simp
  qed
qed

text \<open>
  C10. In the loop over the listed entries, an entry other than \<open>.\<close> and \<open>..\<close> whose
  attributes say directory and whose handle is absent is not descended into: the loop
  goes straight to the plain removal of that name under the directory being emptied,
  which sends the one RMDIR request, and an error of that removal ends the loop with that
  error. So when the server refuses the removal because the directory is not empty, the
  operation fails with the error for status 66 after that single request, and nothing
  below the entry has been listed or removed. No fuel is needed for the entry.
\<close>

theorem removeAll_entries_directory_without_handle:
  assumes "FileName entry \<noteq> ''.''" and "FileName entry \<noteq> ''..''"
    and "Type (Attr (EntryAttr entry)) = NF3Dir" and "\<not> IsSet (Handle entry)"
  shows "removeAll_entries n v deleteDirfh (entry # rest) =
           (case rmDir v deleteDirfh (FileName entry) of
              (Some err, v') \<Rightarrow> Some (Some err, v')
            | (None, v') \<Rightarrow> removeAll_entries n v' deleteDirfh rest) \<and>
         sent (snd (rmDir v deleteDirfh (FileName entry))) =
           sent v @ [RmDir3Args deleteDirfh (FileName entry)] \<and>
         (snd (server v (sent v @ [RmDir3Args deleteDirfh (FileName entry)])) =
            Stream (XUint32 NFS3ERR_NOTEMPTY # body) \<longrightarrow>
          removeAll_entries n v deleteDirfh (entry # rest) =
            Some (Some (Error ''error: 66''),
                  v\<lparr>sent := sent v @ [RmDir3Args deleteDirfh (FileName entry)],
                    clock := clock v +
                      int (fst (server v (sent v @ [RmDir3Args deleteDirfh (FileName entry)])))\<rparr>))"
proof (intro conjI impI)
  show eq: "removeAll_entries n v deleteDirfh (entry # rest) =
           (case rmDir v deleteDirfh (FileName entry) of
              (Some err, v') \<Rightarrow> Some (Some err, v')
            | (None, v') \<Rightarrow> removeAll_entries n v' deleteDirfh rest)"
    using assms by simp
  show "sent (snd (rmDir v deleteDirfh (FileName entry))) =
           sent v @ [RmDir3Args deleteDirfh (FileName entry)]"
  proof -
    obtain err where "rmDir v deleteDirfh (FileName entry) =
       (Some err, v\<lparr>sent := sent v @ [RmDir3Args deleteDirfh (FileName entry)],
                    clock := clock v +
                      int (fst (server v (sent v @ [RmDir3Args deleteDirfh (FileName entry)])))\<rparr>)"
      by (rule rmDir_cases)
    then show ?thesis by simp
  qed
  assume "snd (server v (sent v @ [RmDir3Args deleteDirfh (FileName entry)])) =
            Stream (XUint32 NFS3ERR_NOTEMPTY # body)"
  then have "rmDir v deleteDirfh (FileName entry) =
       (Some (Error ''error: 66''),
        v\<lparr>sent := sent v @ [RmDir3Args deleteDirfh (FileName entry)],
          clock := clock v +
            int (fst (server v (sent v @ [RmDir3Args deleteDirfh (FileName entry)])))\<rparr>)"
    by (simp add: rmDir_def call_def Call_effect ReadUint32_def NFS3Error_66)
  then show "removeAll_entries n v deleteDirfh (entry # rest) =
            Some (Some (Error ''error: 66''),
                  v\<lparr>sent := sent v @ [RmDir3Args deleteDirfh (FileName entry)],
                    clock := clock v +
                      int (fst (server v (sent v @ [RmDir3Args deleteDirfh (FileName entry)])))\<rparr>)"
    by (simp add: eq del: removeAll_entries.simps)
qed

theorem removeAll_entries_directory_without_handle_witness:
  "removeAll_entries 0 (fresh tree_server) [0, 1] [entry_c, entry_d] =
     Some (Some (Error ''error: 66''),
           (fresh tree_server)\<lparr>sent := [RmDir3Args [0, 1] ''c''], clock := 1000\<rparr>)"
proof -
  have n: "FileName entry_c \<noteq> ''.''" "FileName entry_c \<noteq> ''..''"
    "Type (Attr (EntryAttr entry_c)) = NF3Dir" "\<not> IsSet (Handle entry_c)"
    by (simp_all add: entry_c_def dirAttr_def NF3Dir_def)
  have s: "snd (server (fresh tree_server) (sent (fresh tree_server) @ [RmDir3Args [0, 1] (FileName entry_c)])) =
      Stream (XUint32 NFS3ERR_NOTEMPTY # [])"
    by (simp add: fresh_simps tree_server_def entry_c_def)
  have f: "fst (tree_server [RmDir3Args [0, 1] ''c'']) = 1000"
    by (simp add: tree_server_def)
  have nm: "FileName entry_c = ''c''" by (simp add: entry_c_def)
  have "snd (server (fresh tree_server) (sent (fresh tree_server) @ [RmDir3Args [0, 1] (FileName entry_c)])) =
            Stream (XUint32 NFS3ERR_NOTEMPTY # []) \<longrightarrow>
        removeAll_entries 0 (fresh tree_server) [0, 1] (entry_c # [entry_d]) =
            Some (Some (Error ''error: 66''),
                  (fresh tree_server)\<lparr>sent := sent (fresh tree_server) @ [RmDir3Args [0, 1] (FileName entry_c)],
                    clock := clock (fresh tree_server) +
                      int (fst (server (fresh tree_server)
                        (sent (fresh tree_server) @ [RmDir3Args [0, 1] (FileName entry_c)])))\<rparr>)"
    using removeAll_entries_directory_without_handle
      [OF n, of 0 "fresh tree_server" "[0, 1]" "[entry_d]" "[]"]
    by blast
  with s have "removeAll_entries 0 (fresh tree_server) [0, 1] (entry_c # [entry_d]) =
            Some (Some (Error ''error: 66''),
                  (fresh tree_server)\<lparr>sent := sent (fresh tree_server) @ [RmDir3Args [0, 1] (FileName entry_c)],
                    clock := clock (fresh tree_server) +
                      int (fst (server (fresh tree_server)
                        (sent (fresh tree_server) @ [RmDir3Args [0, 1] (FileName entry_c)])))\<rparr>)"
    by blast
  then show ?thesis
    by (simp add: f nm fresh_simps del: removeAll_entries.simps)
qed

section \<open>Properties of the cache janitor\<close>

lemma cleanup_inner_absent:
  "map_of ents h = None \<Longrightarrow>
   cleanup_inner now h (n # names) (ents, cnt) = cleanup_inner now h names (ents, cnt)"
  by simp

lemma cleanup_inner_gone:
  "map_of ents h = Some es \<Longrightarrow> map_of es n = None \<Longrightarrow>
   cleanup_inner now h (n # names) (ents, cnt) = cleanup_inner now h names (ents, cnt)"
  by simp

lemma cleanup_inner_live:
  "map_of ents h = Some es \<Longrightarrow> map_of es n = Some e \<Longrightarrow> \<not> expire e < now \<Longrightarrow>
   cleanup_inner now h (n # names) (ents, cnt) =
     (if 1000 < cnt + 1 then ((ents, cnt + 1), True)
      else cleanup_inner now h names (ents, cnt + 1))"
  by simp

lemma cleanup_inner_expired:
  "map_of ents h = Some es \<Longrightarrow> map_of es n = Some e \<Longrightarrow> expire e < now \<Longrightarrow>
   cleanup_inner now h (n # names) (ents, cnt) =
     (if 1000 < cnt + 1
      then ((if length (AList.delete n es) = 0 then AList.delete h ents
             else AList.update h (AList.delete n es) ents, cnt + 1), True)
      else cleanup_inner now h names
             (if length (AList.delete n es) = 0 then AList.delete h ents
              else AList.update h (AList.delete n es) ents, cnt + 1))"
  by (simp add: Let_def)

text \<open>The counter: a pass that starts at most at 1000 ends at most at 1001.\<close>

lemma cleanup_inner_cnt:
  "cleanup_inner now h names (ents, cnt) = ((ents', cnt'), b) \<Longrightarrow> cnt \<le> 1000 \<Longrightarrow>
   cnt' \<le> 1001 \<and> (if b then 1000 < cnt' else cnt' \<le> 1000)"
proof (induction names arbitrary: ents cnt)
  case Nil
  then show ?case by auto
next
  case (Cons n names)
  show ?case
  proof (cases "map_of ents h")
    case None
    with Cons.prems have "cleanup_inner now h names (ents, cnt) = ((ents', cnt'), b)"
      by (simp only: cleanup_inner_absent)
    with Cons.IH Cons.prems(2) show ?thesis by blast
  next
    case (Some es)
    show ?thesis
    proof (cases "map_of es n")
      case None
      with Some Cons.prems have "cleanup_inner now h names (ents, cnt) = ((ents', cnt'), b)"
        by (simp only: cleanup_inner_gone)
      with Cons.IH Cons.prems(2) show ?thesis by blast
    next
      case e: (Some e)
      show ?thesis
      proof (cases "1000 < cnt + 1")
        case True
        with Some e Cons.prems have "cnt' = cnt + 1 \<and> b"
          by (cases "expire e < now") (simp_all add: Let_def)
        with True Cons.prems(2) show ?thesis by simp
      next
        case False
        then have c: "cnt + 1 \<le> 1000" by simp
        from False Some e Cons.prems obtain ents1 where
          "cleanup_inner now h names (ents1, cnt + 1) = ((ents', cnt'), b)"
          by (cases "expire e < now") (simp_all add: Let_def)
        with Cons.IH c show ?thesis by blast
      qed
    qed
  qed
qed

lemma cleanup_outer_cnt:
  "cleanup_outer now bs (ents, cnt) = (ents', cnt') \<Longrightarrow> cnt \<le> 1000 \<Longrightarrow> cnt' \<le> 1001"
proof (induction bs arbitrary: ents cnt)
  case Nil
  then show ?case by simp
next
  case (Cons x bs)
  obtain h es where x: "x = (h, es)" by (cases x)
  obtain ents1 cnt1 b where i: "cleanup_inner now h (map fst es) (ents, cnt) = ((ents1, cnt1), b)"
    by (metis prod.exhaust)
  from cleanup_inner_cnt [OF i Cons.prems(2)]
  have c: "cnt1 \<le> 1001" "if b then 1000 < cnt1 else cnt1 \<le> 1000" by simp_all
  show ?case
  proof (cases b)
    case True
    with x i Cons.prems(1) have "cnt' = cnt1" by simp
    with c show ?thesis by simp
  next
    case False
    with x i Cons.prems(1) have "cleanup_outer now bs (ents1, cnt1) = (ents', cnt')" by simp
    moreover from False c have "cnt1 \<le> 1000" by simp
    ultimately show ?thesis by (rule Cons.IH)
  qed
qed

text \<open>
  A property of the cache that every deletion of an expired entry preserves holds after
  the pass.
\<close>

lemma cleanup_inner_preserves:
  assumes "I ents"
    and step: "\<And>ents es n e. I ents \<Longrightarrow> map_of ents h = Some es \<Longrightarrow> map_of es n = Some e \<Longrightarrow>
        expire e < now \<Longrightarrow>
        I (if length (AList.delete n es) = 0 then AList.delete h ents
           else AList.update h (AList.delete n es) ents)"
    and "cleanup_inner now h names (ents, cnt) = ((ents', cnt'), b)"
  shows "I ents'"
  using assms(1) assms(3)
proof (induction names arbitrary: ents cnt)
  case Nil
  then show ?case by simp
next
  case (Cons n names)
  show ?case
  proof (cases "map_of ents h")
    case None
    with Cons.prems have "cleanup_inner now h names (ents, cnt) = ((ents', cnt'), b)"
      by (simp only: cleanup_inner_absent)
    with Cons.IH Cons.prems(1) show ?thesis by blast
  next
    case (Some es)
    show ?thesis
    proof (cases "map_of es n")
      case None
      with Some Cons.prems have "cleanup_inner now h names (ents, cnt) = ((ents', cnt'), b)"
        by (simp only: cleanup_inner_gone)
      with Cons.IH Cons.prems(1) show ?thesis by blast
    next
      case e: (Some e)
      show ?thesis
      proof (cases "expire e < now")
        case False
        show ?thesis
        proof (cases "1000 < cnt + 1")
          case True
          with False Some e Cons.prems(2) have "ents' = ents" by simp
          with Cons.prems(1) show ?thesis by simp
        next
          case c: False
          with False Some e Cons.prems(2)
          have "cleanup_inner now h names (ents, cnt + 1) = ((ents', cnt'), b)" by simp
          with Cons.IH Cons.prems(1) show ?thesis by blast
        qed
      next
        case True
        let ?ents1 = "if length (AList.delete n es) = 0 then AList.delete h ents
           else AList.update h (AList.delete n es) ents"
        have I1: "I ?ents1" using Cons.prems(1) Some e True by (rule step)
        show ?thesis
        proof (cases "1000 < cnt + 1")
          case c: True
          have "cleanup_inner now h (n # names) (ents, cnt) = ((?ents1, cnt + 1), True)"
            using c by (simp only: cleanup_inner_expired [OF Some e True] if_True)
          with Cons.prems(2) have "ents' = ?ents1" by simp
          with I1 show ?thesis by simp
        next
          case c: False
          have "cleanup_inner now h (n # names) (ents, cnt) =
              cleanup_inner now h names (?ents1, cnt + 1)"
            using c by (simp only: cleanup_inner_expired [OF Some e True] if_False)
          with Cons.prems(2) have "cleanup_inner now h names (?ents1, cnt + 1) = ((ents', cnt'), b)"
            by simp
          with Cons.IH I1 show ?thesis by blast
        qed
      qed
    qed
  qed
qed

lemma cleanup_outer_preserves:
  assumes "I ents"
    and step: "\<And>h ents es n e. I ents \<Longrightarrow> map_of ents h = Some es \<Longrightarrow> map_of es n = Some e \<Longrightarrow>
        expire e < now \<Longrightarrow>
        I (if length (AList.delete n es) = 0 then AList.delete h ents
           else AList.update h (AList.delete n es) ents)"
    and "cleanup_outer now bs (ents, cnt) = (ents', cnt')"
  shows "I ents'"
  using assms(1) assms(3)
proof (induction bs arbitrary: ents cnt)
  case Nil
  then show ?case by simp
next
  case (Cons x bs)
  obtain h es where x: "x = (h, es)" by (cases x)
  obtain ents1 cnt1 b where i: "cleanup_inner now h (map fst es) (ents, cnt) = ((ents1, cnt1), b)"
    by (metis prod.exhaust)
  have I1: "I ents1"
    using Cons.prems(1) step i by (rule cleanup_inner_preserves)
  show ?case
  proof (cases b)
    case True
    with x i Cons.prems(2) have "ents' = ents1" by simp
    with I1 show ?thesis by simp
  next
    case False
    with x i Cons.prems(2) have "cleanup_outer now bs (ents1, cnt1) = (ents', cnt')" by simp
    with Cons.IH I1 show ?thesis by blast
  qed
qed

text \<open>What the deletion of one entry does to the cache.\<close>

lemma cache_get_after_delete:
  assumes "map_of ents h = Some es"
  shows "cache_get (if length (AList.delete n es) = 0 then AList.delete h ents
                    else AList.update h (AList.delete n es) ents) h' n' =
         (if h' = h \<and> n' = n then None else cache_get ents h' n')"
proof (cases "AList.delete n es = []")
  case True
  have "map_of es n' = None" if "n' \<noteq> n"
  proof -
    from that have "map_of es n' = map_of (AList.delete n es) n'" by simp
    with True show ?thesis by simp
  qed
  with True assms show ?thesis
    by (auto simp: cache_get_def delete_conv')
next
  case False
  with assms show ?thesis
    by (auto simp: cache_get_def update_conv' delete_conv')
qed

lemma step_only_deletes_expired:
  assumes "cache_get ents h' n' = cache_get ents0 h' n' \<or>
           (cache_get ents h' n' = None \<and> (\<exists>e. cache_get ents0 h' n' = Some e \<and> expire e < now))"
    and "map_of ents h = Some es" and "map_of es n = Some e" and "expire e < now"
  shows "cache_get (if length (AList.delete n es) = 0 then AList.delete h ents
                    else AList.update h (AList.delete n es) ents) h' n' = cache_get ents0 h' n' \<or>
         (cache_get (if length (AList.delete n es) = 0 then AList.delete h ents
                     else AList.update h (AList.delete n es) ents) h' n' = None \<and>
          (\<exists>e. cache_get ents0 h' n' = Some e \<and> expire e < now))"
proof (cases "h' = h \<and> n' = n")
  case True
  with assms(2,3) have "cache_get ents h' n' = Some e" by (simp add: cache_get_def)
  with assms(1) have "cache_get ents0 h' n' = Some e" by auto
  with True assms(4) show ?thesis
    by (simp only: cache_get_after_delete [OF assms(2)]) auto
next
  case False
  with assms(1) show ?thesis
    by (simp only: cache_get_after_delete [OF assms(2)]) auto
qed

lemma step_keeps_no_empty_bucket:
  assumes "map_of ents h' = Some [] \<longrightarrow> map_of ents0 h' = Some []"
    and "map_of ents h = Some es"
  shows "map_of (if length (AList.delete n es) = 0 then AList.delete h ents
                 else AList.update h (AList.delete n es) ents) h' = Some [] \<longrightarrow>
         map_of ents0 h' = Some []"
  using assms by (auto simp: update_conv' delete_conv')

lemma cleanup_inner_only_deletes_expired:
  assumes "cleanup_inner now h names (ents, cnt) = ((ents', cnt'), b)"
  shows "cache_get ents' h' n' = cache_get ents h' n' \<or>
         (cache_get ents' h' n' = None \<and> (\<exists>e. cache_get ents h' n' = Some e \<and> expire e < now))"
  by (rule cleanup_inner_preserves [where I = "\<lambda>x. cache_get x h' n' = cache_get ents h' n' \<or>
         (cache_get x h' n' = None \<and> (\<exists>e. cache_get ents h' n' = Some e \<and> expire e < now))", OF _ _ assms])
     (simp, rule step_only_deletes_expired)

lemma cleanup_outer_only_deletes_expired:
  assumes "cleanup_outer now bs (ents, cnt) = (ents', cnt')"
  shows "cache_get ents' h' n' = cache_get ents h' n' \<or>
         (cache_get ents' h' n' = None \<and> (\<exists>e. cache_get ents h' n' = Some e \<and> expire e < now))"
  by (rule cleanup_outer_preserves [where I = "\<lambda>x. cache_get x h' n' = cache_get ents h' n' \<or>
         (cache_get x h' n' = None \<and> (\<exists>e. cache_get ents h' n' = Some e \<and> expire e < now))", OF _ _ assms])
     (simp, rule step_only_deletes_expired)

lemma cleanup_outer_no_empty_bucket:
  assumes "cleanup_outer now bs (ents, cnt) = (ents', cnt')"
  shows "map_of ents' h' = Some [] \<longrightarrow> map_of ents h' = Some []"
  by (rule cleanup_outer_preserves [where I = "\<lambda>x. map_of x h' = Some [] \<longrightarrow> map_of ents h' = Some []",
        OF _ _ assms])
     (simp, rule step_keeps_no_empty_bucket)

text \<open>A pass that is not cut short deletes every expired entry it ranges over.\<close>

lemma cleanup_inner_complete:
  "cleanup_inner now h names (ents, cnt) = ((ents', cnt'), False) \<Longrightarrow> n \<in> set names \<Longrightarrow>
   cache_get ents h n = Some e \<Longrightarrow> expire e < now \<Longrightarrow> cache_get ents' h n = None"
proof (induction names arbitrary: ents cnt)
  case Nil
  then show ?case by simp
next
  case (Cons n0 names)
  from Cons.prems(3) obtain es where es: "map_of ents h = Some es" "map_of es n = Some e"
    by (auto simp: cache_get_def split: option.splits)
  show ?case
  proof (cases "map_of es n0")
    case None
    with es have "n \<noteq> n0" by auto
    with Cons.prems(2) have n: "n \<in> set names" by simp
    from None es Cons.prems(1) have "cleanup_inner now h names (ents, cnt) = ((ents', cnt'), False)"
      by (simp only: cleanup_inner_gone)
    then show ?thesis using n Cons.prems(3,4) by (rule Cons.IH)
  next
    case e0: (Some e0)
    have c: "\<not> 1000 < cnt + 1"
    proof
      assume "1000 < cnt + 1"
      with es(1) e0 Cons.prems(1) show False
        by (cases "expire e0 < now") (simp_all add: Let_def)
    qed
    show ?thesis
    proof (cases "expire e0 < now")
      case False
      with es e0 have "n \<noteq> n0" using Cons.prems(4) by auto
      with Cons.prems(2) have n: "n \<in> set names" by simp
      from False c es(1) e0 Cons.prems(1)
      have "cleanup_inner now h names (ents, cnt + 1) = ((ents', cnt'), False)" by simp
      then show ?thesis using n Cons.prems(3,4) by (rule Cons.IH)
    next
      case True
      let ?ents1 = "if length (AList.delete n0 es) = 0 then AList.delete h ents
           else AList.update h (AList.delete n0 es) ents"
      have "cleanup_inner now h (n0 # names) (ents, cnt) =
              cleanup_inner now h names (?ents1, cnt + 1)"
        using c by (simp only: cleanup_inner_expired [OF es(1) e0 True] if_False)
      with Cons.prems(1) have r: "cleanup_inner now h names (?ents1, cnt + 1) = ((ents', cnt'), False)"
        by simp
      have g: "cache_get ?ents1 h n = (if n = n0 then None else cache_get ents h n)"
        by (simp only: cache_get_after_delete [OF es(1)]) simp
      show ?thesis
      proof (cases "n = n0")
        case True
        with g have "cache_get ?ents1 h n = None" by simp
        with cleanup_inner_only_deletes_expired [OF r, of h n] show ?thesis by auto
      next
        case False
        with Cons.prems(2) have n: "n \<in> set names" by simp
        from False g Cons.prems(3) have "cache_get ?ents1 h n = Some e" by simp
        with r n show ?thesis using Cons.prems(4) by (rule Cons.IH)
      qed
    qed
  qed
qed

lemma cleanup_outer_complete:
  "cleanup_outer now bs (ents, cnt) = (ents', cnt') \<Longrightarrow> cnt' \<le> 1000 \<Longrightarrow> cnt \<le> 1000 \<Longrightarrow>
   (h, es0) \<in> set bs \<Longrightarrow> n \<in> set (map fst es0) \<Longrightarrow>
   cache_get ents h n = Some e \<Longrightarrow> expire e < now \<Longrightarrow> cache_get ents' h n = None"
proof (induction bs arbitrary: ents cnt)
  case Nil
  then show ?case by simp
next
  case (Cons x bs)
  obtain h1 es1 where x: "x = (h1, es1)" by (cases x)
  obtain ents1 cnt1 b where i: "cleanup_inner now h1 (map fst es1) (ents, cnt) = ((ents1, cnt1), b)"
    by (metis prod.exhaust)
  from cleanup_inner_cnt [OF i Cons.prems(3)]
  have c: "if b then 1000 < cnt1 else cnt1 \<le> 1000" by simp
  have nb: "\<not> b"
  proof
    assume b
    with x i Cons.prems(1) have "cnt' = cnt1" by simp
    with c \<open>b\<close> Cons.prems(2) show False by simp
  qed
  with x i Cons.prems(1) have o: "cleanup_outer now bs (ents1, cnt1) = (ents', cnt')" by simp
  from nb c have c1: "cnt1 \<le> 1000" by simp
  from nb i have i': "cleanup_inner now h1 (map fst es1) (ents, cnt) = ((ents1, cnt1), False)" by simp
  have after: "cache_get ents' h n = None" if "cache_get ents1 h n = None"
    using cleanup_outer_only_deletes_expired [OF o, of h n] that by auto
  show ?case
  proof (cases "cache_get ents1 h n")
    case None
    then show ?thesis by (rule after)
  next
    case (Some e1)
    with cleanup_inner_only_deletes_expired [OF i', of h n] Cons.prems(6)
    have g1: "cache_get ents1 h n = Some e" by auto
    have "(h, es0) \<in> set bs"
    proof (rule ccontr)
      assume "(h, es0) \<notin> set bs"
      with Cons.prems(4) x have "h1 = h" "es1 = es0" by auto
      with i' have "cleanup_inner now h (map fst es0) (ents, cnt) = ((ents1, cnt1), False)"
        by simp
      then have "cache_get ents1 h n = None"
        using Cons.prems(5) Cons.prems(6) Cons.prems(7) by (rule cleanup_inner_complete)
      with g1 show False by simp
    qed
    with o Cons.prems(2) c1 show ?thesis
      using Cons.prems(5) g1 Cons.prems(7) by (rule Cons.IH)
  qed
qed

lemma cache_get_covered:
  assumes "cache_get ents h n = Some e"
  shows "\<exists>es. (h, es) \<in> set ents \<and> n \<in> set (map fst es)"
proof -
  from assms obtain es where "map_of ents h = Some es" "map_of es n = Some e"
    by (auto simp: cache_get_def split: option.splits)
  then have "(h, es) \<in> set ents" "(n, e) \<in> set es"
    by (auto dest: map_of_SomeD)
  then show ?thesis by force
qed

text \<open>
  The pass, entry by entry: with no key twice, the loops handle exactly the first
  \<open>1001 - cnt\<close> keys in their order, and no other entry changes.
\<close>

lemma cleanup_inner_exact:
  assumes "distinct names" and "\<forall>n\<in>set names. cache_get ents h n \<noteq> None" and "cnt \<le> 1000"
  shows "\<exists>ents'.
           cleanup_inner now h names (ents, cnt) =
             ((ents', cnt + length (take (1001 - cnt) names)), 1001 \<le> cnt + length names) \<and>
           (\<forall>h' n'. cache_get ents' h' n' =
              (if h' = h \<and> n' \<in> set (take (1001 - cnt) names)
               then after_sweep now (cache_get ents h n') else cache_get ents h' n')) \<and>
           (\<forall>h'. h' \<noteq> h \<longrightarrow> map_of ents' h' = map_of ents h')"
  using assms
proof (induction names arbitrary: ents cnt)
  case Nil
  then show ?case by simp
next
  case (Cons n0 names)
  from Cons.prems(2) obtain e0 where g0: "cache_get ents h n0 = Some e0" by auto
  then obtain es where es: "map_of ents h = Some es" "map_of es n0 = Some e0"
    by (auto simp: cache_get_def split: option.splits)
  define ents1 where "ents1 =
    (if expire e0 < now
     then (if length (AList.delete n0 es) = 0 then AList.delete h ents
           else AList.update h (AList.delete n0 es) ents)
     else ents)"
  have g1: "cache_get ents1 h' n' =
      (if h' = h \<and> n' = n0 then after_sweep now (Some e0) else cache_get ents h' n')" for h' n'
  proof (cases "expire e0 < now")
    case True
    then have "ents1 = (if length (AList.delete n0 es) = 0 then AList.delete h ents
           else AList.update h (AList.delete n0 es) ents)"
      by (simp only: ents1_def if_True)
    then have "cache_get ents1 h' n' = (if h' = h \<and> n' = n0 then None else cache_get ents h' n')"
      by (simp only: cache_get_after_delete [OF es(1)])
    with True show ?thesis
      by (simp add: after_sweep_def)
  next
    case False
    then show ?thesis
      unfolding ents1_def using g0 by (simp add: after_sweep_def)
  qed
  have m1: "map_of ents1 h' = map_of ents h'" if "h' \<noteq> h" for h'
    unfolding ents1_def using that by (simp add: update_conv' delete_conv')
  have u: "cleanup_inner now h (n0 # names) (ents, cnt) =
      (if 1000 < cnt + 1 then ((ents1, cnt + 1), True)
       else cleanup_inner now h names (ents1, cnt + 1))"
  proof (cases "expire e0 < now")
    case True
    then show ?thesis
      unfolding ents1_def by (simp only: cleanup_inner_expired [OF es True] if_True)
  next
    case False
    then show ?thesis
      unfolding ents1_def by (simp only: cleanup_inner_live [OF es False] if_False)
  qed
  show ?case
  proof (cases "cnt = 1000")
    case True
    then have t: "take (1001 - cnt) (n0 # names) = [n0]" by simp
    from True u have r: "cleanup_inner now h (n0 # names) (ents, cnt) = ((ents1, cnt + 1), True)"
      by simp
    have "cleanup_inner now h (n0 # names) (ents, cnt) =
             ((ents1, cnt + length (take (1001 - cnt) (n0 # names))), 1001 \<le> cnt + length (n0 # names))"
      using r True by (simp only: t) simp
    moreover have "\<forall>h' n'. cache_get ents1 h' n' =
              (if h' = h \<and> n' \<in> set (take (1001 - cnt) (n0 # names))
               then after_sweep now (cache_get ents h n') else cache_get ents h' n')"
      using g0 by (simp only: t g1) auto
    moreover have "\<forall>h'. h' \<noteq> h \<longrightarrow> map_of ents1 h' = map_of ents h'"
      using m1 by blast
    ultimately show ?thesis by blast
  next
    case False
    with Cons.prems(3) have c: "cnt + 1 \<le> 1000" by simp
    then have t: "take (1001 - cnt) (n0 # names) = n0 # take (1001 - (cnt + 1)) names"
      by (simp add: take_Cons')
    have d: "distinct names" "n0 \<notin> set names" using Cons.prems(1) by simp_all
    have p: "\<forall>n\<in>set names. cache_get ents1 h n \<noteq> None"
    proof
      fix n assume n: "n \<in> set names"
      with d have "n \<noteq> n0" by auto
      then have "cache_get ents1 h n = cache_get ents h n" by (simp add: g1)
      with Cons.prems(2) n show "cache_get ents1 h n \<noteq> None" by simp
    qed
    from Cons.IH [OF d(1) p c] obtain ents' where
      r: "cleanup_inner now h names (ents1, cnt + 1) =
             ((ents', cnt + 1 + length (take (1001 - (cnt + 1)) names)), 1001 \<le> cnt + 1 + length names)"
      and g: "\<And>h' n'. cache_get ents' h' n' =
              (if h' = h \<and> n' \<in> set (take (1001 - (cnt + 1)) names)
               then after_sweep now (cache_get ents1 h n') else cache_get ents1 h' n')"
      and m: "\<And>h'. h' \<noteq> h \<Longrightarrow> map_of ents' h' = map_of ents1 h'"
      by blast
    have "cleanup_inner now h (n0 # names) (ents, cnt) =
             ((ents', cnt + length (take (1001 - cnt) (n0 # names))), 1001 \<le> cnt + length (n0 # names))"
      using u c r by (simp only: t) simp
    moreover have "cache_get ents' h' n' =
              (if h' = h \<and> n' \<in> set (take (1001 - cnt) (n0 # names))
               then after_sweep now (cache_get ents h n') else cache_get ents h' n')" for h' n'
    proof (cases "h' = h \<and> n' \<in> set (take (1001 - (cnt + 1)) names)")
      case True
      then have "n' \<in> set names" by (auto dest: in_set_takeD)
      with d have "n' \<noteq> n0" by auto
      with True show ?thesis by (simp only: t g g1) simp
    next
      case False
      then show ?thesis using g0 by (simp only: t g g1) auto
    qed
    moreover have "\<forall>h'. h' \<noteq> h \<longrightarrow> map_of ents' h' = map_of ents h'"
      using m m1 by simp
    ultimately show ?thesis by blast
  qed
qed

lemma range_order_Cons:
  "range_order ((h, es) # bs) = map (\<lambda>n. (h, n)) (map fst es) @ range_order bs"
  by (simp add: range_order_def)

lemma range_order_handles: "(h, n) \<in> set (range_order bs) \<Longrightarrow> h \<in> fst ` set bs"
  by (induction bs) (auto simp: range_order_def)

lemma cleanup_outer_exact:
  assumes "distinct (map fst bs)"
    and "\<forall>x\<in>set bs. distinct (map fst (snd x)) \<and> map_of ents (fst x) = Some (snd x)"
    and "cnt \<le> 1000"
  shows "\<exists>ents'.
           cleanup_outer now bs (ents, cnt) =
             (ents', cnt + length (take (1001 - cnt) (range_order bs))) \<and>
           (\<forall>h' n'. cache_get ents' h' n' =
              (if (h', n') \<in> set (take (1001 - cnt) (range_order bs))
               then after_sweep now (cache_get ents h' n') else cache_get ents h' n'))"
  using assms
proof (induction bs arbitrary: ents cnt)
  case Nil
  then show ?case by (simp add: range_order_def)
next
  case (Cons x bs)
  obtain h es where x: "x = (h, es)" by (cases x)
  let ?names = "map fst es"
  have dn: "distinct ?names" and mh: "map_of ents h = Some es"
    using Cons.prems(2) x by simp_all
  have pres: "\<forall>n\<in>set ?names. cache_get ents h n \<noteq> None"
  proof
    fix n assume "n \<in> set ?names"
    then have "map_of es n \<noteq> None" by (simp add: map_of_eq_None_iff)
    with mh show "cache_get ents h n \<noteq> None" by (simp add: cache_get_def)
  qed
  from cleanup_inner_exact [OF dn pres Cons.prems(3), of now] obtain ents1 where
    r1: "cleanup_inner now h ?names (ents, cnt) =
             ((ents1, cnt + length (take (1001 - cnt) ?names)), 1001 \<le> cnt + length ?names)"
    and g1: "\<And>h' n'. cache_get ents1 h' n' =
              (if h' = h \<and> n' \<in> set (take (1001 - cnt) ?names)
               then after_sweep now (cache_get ents h n') else cache_get ents h' n')"
    and m1: "\<And>h'. h' \<noteq> h \<Longrightarrow> map_of ents1 h' = map_of ents h'"
    by blast
  have ro: "range_order (x # bs) = map (\<lambda>n. (h, n)) ?names @ range_order bs"
    using x by (simp add: range_order_Cons)
  have hb: "h \<notin> fst ` set bs" using Cons.prems(1) x by simp
  show ?case
  proof (cases "1001 \<le> cnt + length ?names")
    case True
    then have k: "1001 - cnt \<le> length ?names" by simp
    then have t: "take (1001 - cnt) (range_order (x # bs)) =
        map (\<lambda>n. (h, n)) (take (1001 - cnt) ?names)"
      by (simp add: ro take_map)
    have l: "length (take (1001 - cnt) (range_order (x # bs))) = 1001 - cnt"
      using k by (simp only: t length_map length_take)
    have "cleanup_outer now (x # bs) (ents, cnt) = (ents1, cnt + (1001 - cnt))"
      using True r1 x k by simp
    then have "cleanup_outer now (x # bs) (ents, cnt) =
        (ents1, cnt + length (take (1001 - cnt) (range_order (x # bs))))"
      by (simp only: l)
    moreover have "cache_get ents1 h' n' =
              (if (h', n') \<in> set (take (1001 - cnt) (range_order (x # bs)))
               then after_sweep now (cache_get ents h' n') else cache_get ents h' n')" for h' n'
      by (simp only: t g1) auto
    ultimately show ?thesis by blast
  next
    case False
    then have c1: "cnt + length ?names \<le> 1000" by simp
    then have tn: "take (1001 - cnt) ?names = ?names" by simp
    have t: "take (1001 - cnt) (range_order (x # bs)) =
        map (\<lambda>n. (h, n)) ?names @ take (1001 - (cnt + length ?names)) (range_order bs)"
      using c1 by (simp add: ro)
    have r1': "cleanup_inner now h ?names (ents, cnt) = ((ents1, cnt + length ?names), False)"
      using r1 False by (simp only: tn)
    have g1': "cache_get ents1 h' n' =
              (if h' = h \<and> n' \<in> set ?names
               then after_sweep now (cache_get ents h n') else cache_get ents h' n')" for h' n'
      using g1 [of h' n'] by (simp only: tn)
    have d: "distinct (map fst bs)" using Cons.prems(1) by simp
    have p: "\<forall>y\<in>set bs. distinct (map fst (snd y)) \<and> map_of ents1 (fst y) = Some (snd y)"
    proof
      fix y assume y: "y \<in> set bs"
      with hb have "fst y \<noteq> h" by auto
      then have "map_of ents1 (fst y) = map_of ents (fst y)" by (rule m1)
      with Cons.prems(2) y show "distinct (map fst (snd y)) \<and> map_of ents1 (fst y) = Some (snd y)"
        by simp
    qed
    from Cons.IH [OF d p c1] obtain ents' where
      r: "cleanup_outer now bs (ents1, cnt + length ?names) =
             (ents', cnt + length ?names +
                length (take (1001 - (cnt + length ?names)) (range_order bs)))"
      and g: "\<And>h' n'. cache_get ents' h' n' =
              (if (h', n') \<in> set (take (1001 - (cnt + length ?names)) (range_order bs))
               then after_sweep now (cache_get ents1 h' n') else cache_get ents1 h' n')"
      by blast
    have l: "length (take (1001 - cnt) (range_order (x # bs))) =
        length ?names + length (take (1001 - (cnt + length ?names)) (range_order bs))"
      by (simp only: t length_append length_map)
    have "cleanup_outer now (x # bs) (ents, cnt) =
        cleanup_outer now bs (ents1, cnt + length ?names)"
      using r1' x by simp
    then have "cleanup_outer now (x # bs) (ents, cnt) =
        (ents', cnt + length (take (1001 - cnt) (range_order (x # bs))))"
      by (simp only: l r add.assoc)
    moreover have "cache_get ents' h' n' =
              (if (h', n') \<in> set (take (1001 - cnt) (range_order (x # bs)))
               then after_sweep now (cache_get ents h' n') else cache_get ents h' n')" for h' n'
    proof (cases "(h', n') \<in> set (take (1001 - (cnt + length ?names)) (range_order bs))")
      case True
      then have "(h', n') \<in> set (range_order bs)" by (rule in_set_takeD)
      then have "h' \<in> fst ` set bs" by (rule range_order_handles)
      with hb have "h' \<noteq> h" by auto
      with True show ?thesis by (simp only: t g g1') simp
    next
      case False
      then show ?thesis by (simp only: t g g1') auto
    qed
    ultimately show ?thesis by blast
  qed
qed

lemma cleanupCache_pass_exact:
  assumes "distinct_keys (entries v)"
  shows "snd (cleanupCache_pass v) = length (take 1001 (range_order (entries v))) \<and>
         (\<forall>h n. cache_get (entries (fst (cleanupCache_pass v))) h n =
            (if (h, n) \<in> set (take 1001 (range_order (entries v)))
             then after_sweep (clock v) (cache_get (entries v) h n)
             else cache_get (entries v) h n))"
proof -
  have d: "distinct (map fst (entries v))"
    using assms by (simp add: distinct_keys_def)
  have p: "\<forall>x\<in>set (entries v). distinct (map fst (snd x)) \<and>
      map_of (entries v) (fst x) = Some (snd x)"
  proof
    fix x assume x: "x \<in> set (entries v)"
    with assms have "distinct (map fst (snd x))"
      by (auto simp: distinct_keys_def list_all_iff)
    moreover from d x have "map_of (entries v) (fst x) = Some (snd x)"
      by (cases x) simp
    ultimately show "distinct (map fst (snd x)) \<and> map_of (entries v) (fst x) = Some (snd x)"
      by simp
  qed
  from cleanup_outer_exact [OF d p, of 0 "clock v"] obtain ents' where
    "cleanup_outer (clock v) (entries v) (entries v, 0) =
       (ents', length (take 1001 (range_order (entries v))))"
    and "\<And>h n. cache_get ents' h n =
            (if (h, n) \<in> set (take 1001 (range_order (entries v)))
             then after_sweep (clock v) (cache_get (entries v) h n)
             else cache_get (entries v) h n)"
    by auto
  then show ?thesis
    by (simp add: cleanupCache_pass_def)
qed

text \<open>The pass leaves a cache with no key twice as one.\<close>

lemma set_update_subset: "set (AList.update k v al) \<subseteq> insert (k, v) (set al)"
  by (induction al) auto

lemma step_keeps_distinct_keys:
  assumes "distinct_keys ents" and "map_of ents h = Some es"
  shows "distinct_keys (if length (AList.delete n es) = 0 then AList.delete h ents
                        else AList.update h (AList.delete n es) ents)"
proof -
  from assms(2) have "(h, es) \<in> set ents" by (rule map_of_SomeD)
  with assms(1) have "distinct (map fst es)"
    by (auto simp: distinct_keys_def list_all_iff)
  then have de: "distinct (map fst (AList.delete n es))" by (rule distinct_delete)
  have "distinct (map fst (AList.delete h ents))"
    using assms(1) by (simp add: distinct_keys_def distinct_delete)
  moreover have "set (AList.delete h ents) \<subseteq> set ents"
    by (auto simp: AList.delete_eq)
  ultimately have a: "distinct_keys (AList.delete h ents)"
    using assms(1) by (auto simp: distinct_keys_def list_all_iff)
  have "distinct (map fst (AList.update h (AList.delete n es) ents))"
    using assms(1) by (simp add: distinct_keys_def distinct_update)
  moreover have "list_all (\<lambda>(h, es). distinct (map fst es)) (AList.update h (AList.delete n es) ents)"
    using assms(1) de set_update_subset [of h "AList.delete n es" ents]
    by (auto simp: distinct_keys_def list_all_iff)
  ultimately have b: "distinct_keys (AList.update h (AList.delete n es) ents)"
    by (simp add: distinct_keys_def)
  from a b show ?thesis by simp
qed

lemma cleanup_outer_distinct_keys:
  assumes "cleanup_outer now bs (ents, cnt) = (ents', cnt')" and "distinct_keys ents"
  shows "distinct_keys ents'"
  using assms(2) _ assms(1)
  by (rule cleanup_outer_preserves [where I = distinct_keys]) (rule step_keeps_distinct_keys)

lemma cleanupCache_pass_distinct_keys:
  "distinct_keys (entries v) \<Longrightarrow> distinct_keys (entries (fst (cleanupCache_pass v)))"
proof -
  assume d: "distinct_keys (entries v)"
  obtain ents' cnt' where o: "cleanup_outer (clock v) (entries v) (entries v, 0) = (ents', cnt')"
    by (cases "cleanup_outer (clock v) (entries v) (entries v, 0)")
  from o d have "distinct_keys ents'" by (rule cleanup_outer_distinct_keys)
  with o show ?thesis by (simp add: cleanupCache_pass_def)
qed

text \<open>
  C9, as amended. One pass of the janitor runs its loop body for at most 1001 entries,
  not 1000: the counter is compared with \<open>cnt > 1000\<close> after the entry has been handled.
  The pass deletes nothing but entries whose expiration is before the clock and leaves
  every other entry as it was; a bucket the pass has emptied is removed (an empty bucket
  left in the cache was empty before); and a pass that ends with the counter at 1000 or
  less has ranged over the whole cache, so no expired entry is left. For a cache with no
  key twice, as every Go map is, the pass is settled entry by entry, cut short or not:
  the counter ends at the number of entries or at 1001, whichever is less; the entries
  inspected are the first 1001 in the order of the two loops; each of them whose
  expiration is before the clock is gone and each other one is kept; and every entry
  beyond the first 1001, expired or not, is left as it was for a later pass. The cache
  the pass leaves has again no key twice.
\<close>

theorem cleanupCache_pass_bounded:
  "snd (cleanupCache_pass v) \<le> 1001 \<and>
   (\<forall>h n. cache_get (entries (fst (cleanupCache_pass v))) h n = cache_get (entries v) h n \<or>
      (cache_get (entries (fst (cleanupCache_pass v))) h n = None \<and>
       (\<exists>e. cache_get (entries v) h n = Some e \<and> expire e < clock v))) \<and>
   (\<forall>h. map_of (entries (fst (cleanupCache_pass v))) h = Some [] \<longrightarrow> map_of (entries v) h = Some []) \<and>
   (snd (cleanupCache_pass v) \<le> 1000 \<longrightarrow>
      (\<forall>h n e. cache_get (entries (fst (cleanupCache_pass v))) h n = Some e \<longrightarrow> \<not> expire e < clock v)) \<and>
   (distinct_keys (entries v) \<longrightarrow>
      snd (cleanupCache_pass v) = length (take 1001 (range_order (entries v))) \<and>
      (\<forall>h n. cache_get (entries (fst (cleanupCache_pass v))) h n =
         (if (h, n) \<in> set (take 1001 (range_order (entries v)))
          then after_sweep (clock v) (cache_get (entries v) h n)
          else cache_get (entries v) h n)) \<and>
      distinct_keys (entries (fst (cleanupCache_pass v))))"
proof -
  obtain ents' cnt' where o: "cleanup_outer (clock v) (entries v) (entries v, 0) = (ents', cnt')"
    by (cases "cleanup_outer (clock v) (entries v) (entries v, 0)")
  then have p: "cleanupCache_pass v = (v\<lparr>entries := ents'\<rparr>, cnt')"
    by (simp add: cleanupCache_pass_def)
  have a: "cnt' \<le> 1001"
    using o by (rule cleanup_outer_cnt) simp
  have b: "cache_get ents' h n = cache_get (entries v) h n \<or>
      (cache_get ents' h n = None \<and> (\<exists>e. cache_get (entries v) h n = Some e \<and> expire e < clock v))"
    for h n
    using o by (rule cleanup_outer_only_deletes_expired)
  have c: "map_of ents' h = Some [] \<longrightarrow> map_of (entries v) h = Some []" for h
    using o by (rule cleanup_outer_no_empty_bucket)
  have d: "\<not> expire e < clock v" if "cnt' \<le> 1000" and g: "cache_get ents' h n = Some e" for h n e
  proof
    assume x: "expire e < clock v"
    from b [of h n] g have g0: "cache_get (entries v) h n = Some e" by auto
    then obtain es where "(h, es) \<in> set (entries v)" "n \<in> set (map fst es)"
      using cache_get_covered by blast
    with o that(1) g0 x have "cache_get ents' h n = None"
      by (intro cleanup_outer_complete [OF o that(1) _ _ _ g0 x]) simp_all
    with g show False by simp
  qed
  have first: "snd (cleanupCache_pass v) \<le> 1001 \<and>
   (\<forall>h n. cache_get (entries (fst (cleanupCache_pass v))) h n = cache_get (entries v) h n \<or>
      (cache_get (entries (fst (cleanupCache_pass v))) h n = None \<and>
       (\<exists>e. cache_get (entries v) h n = Some e \<and> expire e < clock v))) \<and>
   (\<forall>h. map_of (entries (fst (cleanupCache_pass v))) h = Some [] \<longrightarrow> map_of (entries v) h = Some []) \<and>
   (snd (cleanupCache_pass v) \<le> 1000 \<longrightarrow>
      (\<forall>h n e. cache_get (entries (fst (cleanupCache_pass v))) h n = Some e \<longrightarrow> \<not> expire e < clock v))"
    using a b c d by (simp add: p)
  have second: "distinct_keys (entries v) \<longrightarrow>
      snd (cleanupCache_pass v) = length (take 1001 (range_order (entries v))) \<and>
      (\<forall>h n. cache_get (entries (fst (cleanupCache_pass v))) h n =
         (if (h, n) \<in> set (take 1001 (range_order (entries v)))
          then after_sweep (clock v) (cache_get (entries v) h n)
          else cache_get (entries v) h n)) \<and>
      distinct_keys (entries (fst (cleanupCache_pass v)))"
    using cleanupCache_pass_exact [of v] cleanupCache_pass_distinct_keys [of v] by blast
  from first second show ?thesis by blast
qed

lemma numbered_bucket_get:
  "i < k \<Longrightarrow> map_of (map (\<lambda>i. (digits10 i, c)) [0..<k]) (digits10 i) = Some c"
proof -
  assume "i < k"
  have "distinct (map fst (map (\<lambda>i. (digits10 i, c)) [0..<k]))"
    by (auto simp: distinct_map comp_def intro: inj_onI dest: digits10_inj)
  moreover from \<open>i < k\<close> have "(digits10 i, c) \<in> set (map (\<lambda>i. (digits10 i, c)) [0..<k])"
    by auto
  ultimately show ?thesis by (rule map_of_is_SomeI)
qed

lemma overfull_facts:
  "distinct_keys (entries overfull)"
  "take 1001 (range_order (entries overfull)) = map (\<lambda>i. ([0], digits10 i)) [0..<1001]"
  "cache_get (entries overfull) [0] (digits10 0) = Some old_entry"
  "cache_get (entries overfull) [0] (digits10 1001) = Some old_entry"
  "clock overfull = 1"
proof -
  have e: "entries overfull = [([0], overfull_bucket)]"
    by (simp add: overfull_def fresh_def)
  have "distinct (map fst overfull_bucket)"
    unfolding overfull_bucket_def
    by (auto simp: distinct_map comp_def intro: inj_onI dest: digits10_inj)
  then show "distinct_keys (entries overfull)"
    by (simp add: e distinct_keys_def)
  have "range_order (entries overfull) = map (\<lambda>i. ([0], digits10 i)) [0..<1002]"
    by (simp add: e range_order_def overfull_bucket_def comp_def)
  then show "take 1001 (range_order (entries overfull)) = map (\<lambda>i. ([0], digits10 i)) [0..<1001]"
    by (simp only: take_map take_upt) simp
  show "cache_get (entries overfull) [0] (digits10 0) = Some old_entry"
    by (simp add: e cache_get_def overfull_bucket_def numbered_bucket_get)
  show "cache_get (entries overfull) [0] (digits10 1001) = Some old_entry"
    by (simp add: e cache_get_def overfull_bucket_def numbered_bucket_get)
  show "clock overfull = 1"
    by (simp add: overfull_def)
qed

lemma digits10_names: "digits10 0 = ''0''" "digits10 1001 = ''1001''"
  by (simp_all add: digits10.simps digit_char_def)

lemma stale_facts:
  "distinct_keys (entries stale)"
  "take 1001 (range_order (entries stale)) = [([0], ''a''), ([0], ''b''), ([0, 1], ''c'')]"
  "cache_get (entries stale) [0] ''a'' = Some old_entry"
  "cache_get (entries stale) [0] ''b'' = Some live_entry"
  "clock stale = 10"
  by (simp_all add: stale_def fresh_def distinct_keys_def range_order_def cache_get_def)

theorem cleanupCache_pass_bounded_witness:
  "cleanupCache_pass stale = (stale\<lparr>entries := [([0], [(''b'', live_entry)])]\<rparr>, 3) \<and>
   snd (cleanupCache_pass stale) \<le> 1000 \<and>
   cache_get (entries (fst (cleanupCache_pass stale))) [0] ''b'' = Some live_entry \<and>
   \<not> expire live_entry < clock stale \<and>
   distinct_keys (entries stale) \<and>
   cache_get (entries (fst (cleanupCache_pass stale))) [0] ''a'' = None \<and>
   distinct_keys (entries overfull) \<and>
   snd (cleanupCache_pass overfull) = 1001 \<and>
   expire old_entry < clock overfull \<and>
   cache_get (entries overfull) [0] ''0'' = Some old_entry \<and>
   cache_get (entries (fst (cleanupCache_pass overfull))) [0] ''0'' = None \<and>
   cache_get (entries (fst (cleanupCache_pass overfull))) [0] ''1001'' = Some old_entry"
proof -
  have ev: "cleanupCache_pass stale = (stale\<lparr>entries := [([0], [(''b'', live_entry)])]\<rparr>, 3)"
    by (simp add: cleanupCache_pass_def stale_def fresh_def old_entry_def live_entry_def Let_def)
  have small: "snd (cleanupCache_pass stale) \<le> 1000"
    by (simp add: ev)
  have g: "cache_get (entries (fst (cleanupCache_pass stale))) [0] ''b'' = Some live_entry"
    by (simp add: ev cache_get_def)
  have "snd (cleanupCache_pass stale) \<le> 1000 \<longrightarrow>
      (\<forall>h n e. cache_get (entries (fst (cleanupCache_pass stale))) h n = Some e \<longrightarrow>
         \<not> expire e < clock stale)"
    using cleanupCache_pass_bounded [of stale] by blast
  with small g have live: "\<not> expire live_entry < clock stale" by blast
  have s: "\<forall>h n. cache_get (entries (fst (cleanupCache_pass stale))) h n =
         (if (h, n) \<in> set (take 1001 (range_order (entries stale)))
          then after_sweep (clock stale) (cache_get (entries stale) h n)
          else cache_get (entries stale) h n)"
    using cleanupCache_pass_bounded [of stale] stale_facts(1) by blast
  have sa: "cache_get (entries (fst (cleanupCache_pass stale))) [0] ''a'' = None"
    by (simp add: s stale_facts after_sweep_def old_entry_def)
  have o: "snd (cleanupCache_pass overfull) = length (take 1001 (range_order (entries overfull))) \<and>
      (\<forall>h n. cache_get (entries (fst (cleanupCache_pass overfull))) h n =
         (if (h, n) \<in> set (take 1001 (range_order (entries overfull)))
          then after_sweep (clock overfull) (cache_get (entries overfull) h n)
          else cache_get (entries overfull) h n))"
    using cleanupCache_pass_bounded [of overfull] overfull_facts(1) by blast
  have o1: "snd (cleanupCache_pass overfull) = 1001"
    using o by (simp only: overfull_facts(2) length_map length_upt)
  have ex: "expire old_entry < clock overfull"
    by (simp add: overfull_facts(5) old_entry_def)
  have o0: "cache_get (entries overfull) [0] ''0'' = Some old_entry"
    using overfull_facts(3) by (simp add: digits10_names)
  have o4: "cache_get (entries overfull) [0] ''1001'' = Some old_entry"
    using overfull_facts(4) by (simp add: digits10_names)
  have in0: "([0], digits10 0) \<in> set (map (\<lambda>i. ([0 :: 8 word], digits10 i)) [0..<1001])"
    by (simp only: set_map set_upt) (rule imageI, simp)
  have out: "([0], digits10 1001) \<notin> set (map (\<lambda>i. ([0 :: 8 word], digits10 i)) [0..<1001])"
    by (auto dest: digits10_inj)
  have f: "cache_get (entries (fst (cleanupCache_pass overfull))) h n =
         (if (h, n) \<in> set (map (\<lambda>i. ([0], digits10 i)) [0..<1001])
          then after_sweep (clock overfull) (cache_get (entries overfull) h n)
          else cache_get (entries overfull) h n)" for h n
    using o by (simp only: overfull_facts(2))
  have "cache_get (entries (fst (cleanupCache_pass overfull))) [0] (digits10 0) =
      after_sweep (clock overfull) (cache_get (entries overfull) [0] (digits10 0))"
    using in0 by (simp only: f if_True)
  then have o2: "cache_get (entries (fst (cleanupCache_pass overfull))) [0] ''0'' = None"
    using ex by (simp add: digits10_names o0 after_sweep_def)
  have "cache_get (entries (fst (cleanupCache_pass overfull))) [0] (digits10 1001) =
      cache_get (entries overfull) [0] (digits10 1001)"
    using out by (simp only: f if_False)
  then have o3: "cache_get (entries (fst (cleanupCache_pass overfull))) [0] ''1001'' = Some old_entry"
    by (simp add: digits10_names o4)
  from ev small g live stale_facts(1) sa overfull_facts(1) o1 ex o0 o2 o3 show ?thesis
    by blast
qed

text \<open>
  The claim as written fails on a bucket of 1001 expired entries: one pass runs the loop
  body for all 1001 of them, deleting each and then the bucket, before the counter
  exceeds 1000.
\<close>

lemma cleanup_inner_all_expired:
  "map_of ents h = Some es \<Longrightarrow> distinct (map fst es) \<Longrightarrow> \<forall>x\<in>set es. expire (snd x) < now \<Longrightarrow>
   es \<noteq> [] \<Longrightarrow> cnt + length es \<le> 1001 \<Longrightarrow>
   cleanup_inner now h (map fst es) (ents, cnt) =
     ((AList.delete h ents, cnt + length es), 1000 < cnt + length es)"
proof (induction es arbitrary: ents cnt)
  case Nil
  then show ?case by simp
next
  case (Cons x es)
  obtain n e where x: "x = (n, e)" by (cases x)
  have m: "map_of (x # es) n = Some e" using x by simp
  have ex: "expire e < now" using Cons.prems(3) x by simp
  have "n \<notin> fst ` set es" using Cons.prems(2) x by simp
  then have d: "AList.delete n (x # es) = es" using x by simp
  let ?ents1 = "if length es = 0 then AList.delete h ents else AList.update h es ents"
  have u: "cleanup_inner now h (n # map fst es) (ents, cnt) =
     (if 1000 < cnt + 1 then ((?ents1, cnt + 1), True)
      else cleanup_inner now h (map fst es) (?ents1, cnt + 1))"
    using cleanup_inner_expired [OF Cons.prems(1) m ex, of "map fst es" cnt] by (simp only: d)
  show ?case
  proof (cases "es = []")
    case True
    with u x show ?thesis by simp
  next
    case False
    then have p: "0 < length es" by simp
    have l: "cnt + 1 + length es \<le> 1001" using Cons.prems(5) by simp
    have c: "\<not> 1000 < cnt + 1" "cnt + 1 + length es \<le> 1001"
      using p l by linarith+
    have m1: "map_of (AList.update h es ents) h = Some es" by (simp add: update_conv')
    have d1: "distinct (map fst es)" using Cons.prems(2) by simp
    have e1: "\<forall>x\<in>set es. expire (snd x) < now" using Cons.prems(3) by simp
    have "cleanup_inner now h (map fst es) (AList.update h es ents, cnt + 1) =
        ((AList.delete h (AList.update h es ents), cnt + 1 + length es), 1000 < cnt + 1 + length es)"
      using m1 d1 e1 False c(2) by (rule Cons.IH)
    with u c(1) False x show ?thesis
      by (simp add: delete_update_same)
  qed
qed

lemma crowded_bucket_facts:
  "length crowded_bucket = 1001" "distinct (map fst crowded_bucket)"
  "\<forall>x\<in>set crowded_bucket. expire (snd x) < 1" "crowded_bucket \<noteq> []"
proof -
  show l: "length crowded_bucket = 1001"
    by (simp only: crowded_bucket_def length_map length_upt)
  have "map fst crowded_bucket = map digits10 [0..<1001]"
    by (simp only: crowded_bucket_def map_map comp_def fst_conv)
  moreover have "inj_on digits10 (set [0..<1001])"
    by (rule inj_onI) (rule digits10_inj)
  ultimately show "distinct (map fst crowded_bucket)"
    by (simp only: distinct_map distinct_upt)
  show "\<forall>x\<in>set crowded_bucket. expire (snd x) < 1"
    by (auto simp only: crowded_bucket_def set_map old_entry_def) simp
  from l show "crowded_bucket \<noteq> []" by auto
qed

theorem cleanupCache_pass_inspects_1001:
  "length crowded_bucket = 1001 \<and>
   cleanupCache_pass crowded = (crowded\<lparr>entries := []\<rparr>, 1001) \<and>
   \<not> snd (cleanupCache_pass crowded) \<le> 1000"
proof -
  have m: "map_of [([0 :: 8 word], crowded_bucket)] [0] = Some crowded_bucket" by simp
  have "cleanup_inner 1 [0] (map fst crowded_bucket) ([([0], crowded_bucket)], 0) =
     ((AList.delete [0] [([0], crowded_bucket)], 0 + length crowded_bucket),
      1000 < 0 + length crowded_bucket)"
    using m crowded_bucket_facts(2,3,4) by (rule cleanup_inner_all_expired)
      (simp add: crowded_bucket_facts(1))
  then have i: "cleanup_inner 1 [0] (map fst crowded_bucket) ([([0], crowded_bucket)], 0) =
     (([], 1001), True)"
    by (simp add: crowded_bucket_facts(1))
  have p: "cleanupCache_pass crowded = (crowded\<lparr>entries := []\<rparr>, 1001)"
    by (simp add: cleanupCache_pass_def crowded_def fresh_def i)
  show ?thesis
    by (simp add: p crowded_bucket_facts(1))
qed

end
